theory Spec2Isabelle
  imports Main "HOL-Library.Word" "HOL-Library.Signed_Division"
begin

section \<open>Values, time and cache entries\<close>

text \<open>
  Go's \<open>any\<close> is an interface value: either \<open>nil\<close> or a boxed value. The cache
  never inspects a value beyond the test \<open>val == nil\<close>, so two kinds of boxed values
  are enough to tell values apart.
\<close>

datatype any = AnyNil | AnyStr string | AnyInt int

text \<open>Go's \<open>error\<close> interface: \<open>None\<close> is the nil error.\<close>

type_synonym error = "string option"

text \<open>
  \<open>time.Time\<close> is an instant, counted here in nanoseconds since the zero instant
  (January 1, year 1, 00:00 UTC), so that \<open>IsZero\<close> is the test against 0.
  \<open>time.Duration\<close> is a signed 64-bit count of nanoseconds.
\<close>

type_synonym time = int
type_synonym Duration = "64 word"

definition time_IsZero :: "time \<Rightarrow> bool" where
  "time_IsZero t = (t = 0)"

definition time_After :: "time \<Rightarrow> time \<Rightarrow> bool" where
  "time_After t u = (u < t)"

definition time_Add :: "time \<Rightarrow> Duration \<Rightarrow> time" where
  "time_Add t d = t + sint d"

text \<open>\<open>t.Sub(u)\<close> saturates at the largest and smallest Duration.\<close>

definition time_Sub :: "time \<Rightarrow> time \<Rightarrow> Duration" where
  "time_Sub t u =
     (if 2 ^ 63 - 1 < t - u then word_of_int (2 ^ 63 - 1)
      else if t - u < - (2 ^ 63) then word_of_int (- (2 ^ 63))
      else word_of_int (t - u))"

record CacheEntry =
  Key :: string
  Value :: any
  CreatedAt :: time
  LastAccessedAt :: time
  ExpireAt :: time

section \<open>Expiration: expire after access\<close>

record ExpireAfterAccess =
  TTL :: Duration

definition ExpireAfterAccess_IsExpired :: "ExpireAfterAccess \<Rightarrow> CacheEntry \<Rightarrow> time \<Rightarrow> bool" where
  "ExpireAfterAccess_IsExpired e ent now =
     (\<not> time_IsZero (ExpireAt ent) \<and> time_After now (ExpireAt ent))"

definition ExpireAfterAccess_OnAccess :: "ExpireAfterAccess \<Rightarrow> CacheEntry \<Rightarrow> time \<Rightarrow> CacheEntry" where
  "ExpireAfterAccess_OnAccess e ent now =
     (ent\<lparr>LastAccessedAt := now\<rparr>)\<lparr>ExpireAt := time_Add now (TTL e)\<rparr>"

definition ExpireAfterAccess_OnWrite :: "ExpireAfterAccess \<Rightarrow> CacheEntry \<Rightarrow> time \<Rightarrow> CacheEntry" where
  "ExpireAfterAccess_OnWrite e ent now =
     (let ent1 = ent\<lparr>CreatedAt := now\<rparr>;
          ent2 = ent1\<lparr>LastAccessedAt := now\<rparr>
      in if time_IsZero (ExpireAt ent2) then ent2\<lparr>ExpireAt := time_Add now (TTL e)\<rparr>
         else ent2)"

section \<open>The world outside the cache\<close>

text \<open>
  A run of the program reads the wall clock, iterates over Go maps (in an order the
  runtime picks) and runs beside the write-back worker. These choices of the environment
  are streams indexed by a counter that every read advances, so that a definition stays
  a function and every behaviour of the program is the behaviour under some streams.
  The backing store behind the \<open>Loader\<close> has a state of its own, of type \<open>'b\<close>.
  Contexts are passed through unchanged by every function and are left out.
\<close>

record 'b env =
  clock :: "nat \<Rightarrow> time"
  mapiter :: "nat \<Rightarrow> nat"
  parked :: "nat \<Rightarrow> bool"
  ticks :: nat
  backing :: 'b

definition time_Now :: "'b env \<Rightarrow> time \<times> 'b env" where
  "time_Now w = (clock w (ticks w), w\<lparr>ticks := Suc (ticks w)\<rparr>)"

definition time_Until :: "time \<Rightarrow> 'b env \<Rightarrow> Duration \<times> 'b env" where
  "time_Until t w = (case time_Now w of (now, w') \<Rightarrow> (time_Sub t now, w'))"

datatype panic =
    DivideByZero
  | NilDereference
  | SendOnClosedChannel
  | CloseOfClosedChannel
  | NegativeChannelSize
  | NegativeSliceLen
  | UnknownEvictionPolicy

text \<open>The \<open>Loader\<close> interface: both methods may read and change the backing store.\<close>

record 'b Loader =
  Loader_Load :: "'b \<Rightarrow> string \<Rightarrow> (any \<times> error) \<times> 'b"
  Loader_Put :: "'b \<Rightarrow> string \<Rightarrow> any \<Rightarrow> error \<times> 'b"

section \<open>Write policies\<close>

record 'b WriteThroughPolicy =
  wt_store :: "'b Loader"

definition WriteThroughPolicy_OnWrite ::
  "'b WriteThroughPolicy \<Rightarrow> 'b env \<Rightarrow> string \<Rightarrow> any \<Rightarrow> 'b env" where
  "WriteThroughPolicy_OnWrite p w k v = w\<lparr>backing := snd (Loader_Put (wt_store p) (backing w) k v)\<rparr>"

record writeReq =
  req_key :: string
  req_value :: any

text \<open>
  The write-back policy owns a buffered channel and one worker goroutine. The channel
  is its buffer, its capacity and its closed flag; the worker is the request it has
  received and not yet forwarded (\<open>inflight\<close>) and whether it has returned
  (\<open>worker_done\<close>, the wait group at zero).
\<close>

record 'b WriteBackPolicy =
  wb_store :: "'b Loader"
  ch_buf :: "writeReq list"
  ch_cap :: nat
  ch_closed :: bool
  inflight :: "writeReq option"
  worker_done :: bool

definition NewWriteBackPolicy :: "'b Loader \<Rightarrow> int \<Rightarrow> panic + 'b WriteBackPolicy" where
  "NewWriteBackPolicy st buffer =
     (if buffer < 0 then Inl NegativeChannelSize
      else Inr \<lparr>wb_store = st, ch_buf = [], ch_cap = nat buffer, ch_closed = False,
                inflight = None, worker_done = False\<rparr>)"

text \<open>
  \<open>OnWrite\<close> is a \<open>select\<close> with a send and a default. A send on a closed channel
  panics. The send goes through when the worker is parked in its receive (the request is
  handed over directly) or when the buffer has room; otherwise the default branch drops
  the request.
\<close>

definition WriteBackPolicy_OnWrite ::
  "'b WriteBackPolicy \<Rightarrow> 'b env \<Rightarrow> string \<Rightarrow> any \<Rightarrow> panic + ('b WriteBackPolicy \<times> 'b env)" where
  "WriteBackPolicy_OnWrite p w k v =
     (let r = \<lparr>req_key = k, req_value = v\<rparr>;
          w' = w\<lparr>ticks := Suc (ticks w)\<rparr>
      in if ch_closed p then Inl SendOnClosedChannel
         else if parked w (ticks w) \<and> inflight p = None \<and> ch_buf p = [] \<and> \<not> worker_done p
           then Inr (p\<lparr>inflight := Some r\<rparr>, w')
         else if length (ch_buf p) < ch_cap p
           then Inr (p\<lparr>ch_buf := ch_buf p @ [r]\<rparr>, w')
         else Inr (p, w'))"

text \<open>
  One action of the worker, \<open>for req := range w.ch { _ = w.store.Put(...) }\<close>:
  forward the request in hand; else receive the next one from the buffer; else, with the
  buffer empty and the channel closed, leave the loop and return.
\<close>

definition worker_step :: "'b WriteBackPolicy \<Rightarrow> 'b \<Rightarrow> 'b WriteBackPolicy \<times> 'b" where
  "worker_step p b =
     (if worker_done p then (p, b)
      else case inflight p of
        Some r \<Rightarrow> (p\<lparr>inflight := None\<rparr>, snd (Loader_Put (wb_store p) b (req_key r) (req_value r)))
      | None \<Rightarrow>
          (case ch_buf p of
             r # rs \<Rightarrow> (p\<lparr>ch_buf := rs, inflight := Some r\<rparr>, b)
           | [] \<Rightarrow> if ch_closed p then (p\<lparr>worker_done := True\<rparr>, b) else (p, b)))"

text \<open>
  \<open>wg.Wait()\<close> as \<open>Close\<close> calls it, after the channel is closed: the worker runs
  until it has returned. On an open channel the wait would depend on later sends; that
  case is \<open>None\<close>.
\<close>

function worker_wait :: "'b WriteBackPolicy \<Rightarrow> 'b \<Rightarrow> ('b WriteBackPolicy \<times> 'b) option" where
  "worker_wait p b =
     (if worker_done p then Some (p, b)
      else if \<not> ch_closed p then None
      else worker_wait (fst (worker_step p b)) (snd (worker_step p b)))"
  by pat_completeness auto
termination
  by (relation "measure (\<lambda>(p, b). 2 * length (ch_buf p)
        + (if inflight p = None then 0 else 1) + (if worker_done p then 0 else 2))")
     (auto simp: worker_step_def split: option.splits list.splits)

definition WriteBackPolicy_Close ::
  "'b WriteBackPolicy \<Rightarrow> 'b env \<Rightarrow> panic + ('b WriteBackPolicy \<times> 'b env) option" where
  "WriteBackPolicy_Close p w =
     (if ch_closed p then Inl CloseOfClosedChannel
      else Inr (case worker_wait (p\<lparr>ch_closed := True\<rparr>) (backing w) of
                  None \<Rightarrow> None
                | Some (p', b') \<Rightarrow> Some (p', w\<lparr>backing := b'\<rparr>)))"

text \<open>The \<open>WritePolicy\<close> interface and its two implementations.\<close>

datatype 'b WritePolicy = WriteThrough "'b WriteThroughPolicy" | WriteBack "'b WriteBackPolicy"

definition WritePolicy_OnWrite ::
  "'b WritePolicy \<Rightarrow> 'b env \<Rightarrow> string \<Rightarrow> any \<Rightarrow> panic + ('b WritePolicy \<times> 'b env)" where
  "WritePolicy_OnWrite p w k v =
     (case p of
        WriteThrough t \<Rightarrow> Inr (WriteThrough t, WriteThroughPolicy_OnWrite t w k v)
      | WriteBack q \<Rightarrow>
          (case WriteBackPolicy_OnWrite q w k v of
             Inl e \<Rightarrow> Inl e
           | Inr (q', w') \<Rightarrow> Inr (WriteBack q', w')))"

definition WritePolicy_Close ::
  "'b WritePolicy \<Rightarrow> 'b env \<Rightarrow> panic + ('b WritePolicy \<times> 'b env) option" where
  "WritePolicy_Close p w =
     (case p of
        WriteThrough t \<Rightarrow> Inr (Some (WriteThrough t, w))
      | WriteBack q \<Rightarrow>
          (case WriteBackPolicy_Close q w of
             Inl e \<Rightarrow> Inl e
           | Inr None \<Rightarrow> Inr None
           | Inr (Some (q', w')) \<Rightarrow> Inr (Some (WriteBack q', w'))))"

section \<open>The cache engine\<close>

record Metrics =
  m_Hit :: nat
  m_Miss :: nat
  m_Eviction :: nat
  m_Expire :: nat
  m_Refresh :: nat

text \<open>
  The engine's fields as in the source. \<open>Expiration\<close>, \<open>RefreshHook\<close>, \<open>Loader\<close>
  and \<open>WritePolicy\<close> are interfaces and may be nil. The only expiration strategy of
  the repository is \<open>ExpireAfterAccess\<close>. A refresh hook receives the entry by
  pointer, so it is a function that may change it. The metrics sink counts the events.
\<close>

record 'b CacheEngine =
  Expiration :: "ExpireAfterAccess option"
  RefreshHook :: "(string \<Rightarrow> CacheEntry \<Rightarrow> CacheEntry) option"
  Loader :: "'b Loader option"
  WritePolicy :: "'b WritePolicy option"
  Metrics :: Metrics

definition CacheEngine_IsExpired :: "'b CacheEngine \<Rightarrow> 'b env \<Rightarrow> CacheEntry \<Rightarrow> bool \<times> 'b env" where
  "CacheEngine_IsExpired e w ent =
     (case Expiration e of
        None \<Rightarrow> (False, w)
      | Some s \<Rightarrow> (case time_Now w of (now, w') \<Rightarrow> (ExpireAfterAccess_IsExpired s ent now, w')))"

definition CacheEngine_OnRead ::
  "'b CacheEngine \<Rightarrow> 'b env \<Rightarrow> string \<Rightarrow> CacheEntry \<Rightarrow> CacheEntry \<times> 'b CacheEngine \<times> 'b env" where
  "CacheEngine_OnRead e w k ent =
     (case time_Now w of (now, w') \<Rightarrow>
        (let ent1 = (case Expiration e of None \<Rightarrow> ent | Some s \<Rightarrow> ExpireAfterAccess_OnAccess s ent now)
         in case RefreshHook e of
              None \<Rightarrow> (ent1, e, w')
            | Some h \<Rightarrow> (h k ent1, e\<lparr>Metrics := (Metrics e)\<lparr>m_Refresh := Suc (m_Refresh (Metrics e))\<rparr>\<rparr>, w')))"

definition CacheEngine_OnWrite ::
  "'b CacheEngine \<Rightarrow> 'b env \<Rightarrow> CacheEntry \<Rightarrow> panic + (CacheEntry \<times> 'b CacheEngine \<times> 'b env)" where
  "CacheEngine_OnWrite e w ent =
     (case time_Now w of (now, w') \<Rightarrow>
        (let ent1 = (case Expiration e of None \<Rightarrow> ent | Some s \<Rightarrow> ExpireAfterAccess_OnWrite s ent now)
         in if \<not> time_IsZero (ExpireAt ent1) then Inr (ent1, e, w')
            else case WritePolicy e of
                   None \<Rightarrow> Inr (ent1, e, w')
                 | Some p \<Rightarrow>
                     (case WritePolicy_OnWrite p w' (Key ent1) (Value ent1) of
                        Inl err \<Rightarrow> Inl err
                      | Inr (p', w'') \<Rightarrow> Inr (ent1, e\<lparr>WritePolicy := Some p'\<rparr>, w''))))"

definition CacheEngine_Load ::
  "'b CacheEngine \<Rightarrow> 'b env \<Rightarrow> string \<Rightarrow> panic + ((any \<times> error) \<times> 'b env)" where
  "CacheEngine_Load e w k =
     (case Loader e of
        None \<Rightarrow> Inl NilDereference
      | Some l \<Rightarrow> (case Loader_Load l (backing w) k of (res, b') \<Rightarrow> Inr (res, w\<lparr>backing := b'\<rparr>)))"

section \<open>Runs of the write-back policy beside its worker\<close>

text \<open>
  Between two calls of the cache the worker may have made any number of steps. A run is
  a list of events: a call of \<open>OnWrite\<close>, or one action of the worker.
\<close>

datatype wb_event = Write string any | Work

fun wb_run ::
  "wb_event list \<Rightarrow> 'b WriteBackPolicy \<Rightarrow> 'b env \<Rightarrow> panic + ('b WriteBackPolicy \<times> 'b env)" where
  "wb_run [] p w = Inr (p, w)"
| "wb_run (Write k v # es) p w =
     (case WriteBackPolicy_OnWrite p w k v of
        Inl e \<Rightarrow> Inl e
      | Inr (p', w') \<Rightarrow> wb_run es p' w')"
| "wb_run (Work # es) p w =
     (case worker_step p (backing w) of (p', b') \<Rightarrow> wb_run es p' (w\<lparr>backing := b'\<rparr>))"

fun writes :: "wb_event list \<Rightarrow> writeReq list" where
  "writes [] = []"
| "writes (Write k v # es) = \<lparr>req_key = k, req_value = v\<rparr> # writes es"
| "writes (Work # es) = writes es"

text \<open>The backing store after \<open>Put\<close> was called for each request of a list, in order.\<close>

fun forward :: "'b Loader \<Rightarrow> 'b \<Rightarrow> writeReq list \<Rightarrow> 'b" where
  "forward st b [] = b"
| "forward st b (r # rs) = forward st (snd (Loader_Put st b (req_key r) (req_value r))) rs"

text \<open>The requests the policy has accepted and not yet forwarded, oldest first.\<close>

definition pending :: "'b WriteBackPolicy \<Rightarrow> writeReq list" where
  "pending p = (case inflight p of None \<Rightarrow> [] | Some r \<Rightarrow> [r]) @ ch_buf p"

section \<open>Eviction policies\<close>

subsection \<open>LRU\<close>

text \<open>
  The LRU policy is a doubly linked list of nodes that point at each other, a map from
  keys to nodes, and the pointers to the first and the last node. Nodes live in a heap,
  a function from addresses to nodes; \<open>lru_fresh\<close> is the next unused address, so
  that \<open>&lruNode{key: k}\<close> allocates there. A node that is unlinked stays in the heap
  (other nodes may still point at it), as it does in Go while it is reachable.
\<close>

record lruNode =
  n_key :: string
  n_prev :: "nat option"
  n_next :: "nat option"

record lru =
  lru_nodes :: "string \<rightharpoonup> nat"
  lru_head :: "nat option"
  lru_tail :: "nat option"
  lru_heap :: "nat \<Rightarrow> lruNode"
  lru_fresh :: nat

definition newLRU :: lru where
  "newLRU = \<lparr>lru_nodes = Map.empty, lru_head = None, lru_tail = None,
             lru_heap = (\<lambda>a. \<lparr>n_key = [], n_prev = None, n_next = None\<rparr>), lru_fresh = 0\<rparr>"

definition lru_addFront :: "nat \<Rightarrow> lru \<Rightarrow> lru" where
  "lru_addFront n l =
     (let l1 = l\<lparr>lru_heap := (lru_heap l)(n := (lru_heap l n)\<lparr>n_next := lru_head l\<rparr>)\<rparr>;
          l2 = (case lru_head l1 of
                  None \<Rightarrow> l1
                | Some h \<Rightarrow> l1\<lparr>lru_heap := (lru_heap l1)(h := (lru_heap l1 h)\<lparr>n_prev := Some n\<rparr>)\<rparr>);
          l3 = l2\<lparr>lru_head := Some n\<rparr>
      in if lru_tail l3 = None then l3\<lparr>lru_tail := Some n\<rparr> else l3)"

definition lru_remove :: "nat \<Rightarrow> lru \<Rightarrow> lru" where
  "lru_remove n l =
     (let l1 = (case n_prev (lru_heap l n) of
                  Some p \<Rightarrow> l\<lparr>lru_heap := (lru_heap l)(p := (lru_heap l p)\<lparr>n_next := n_next (lru_heap l n)\<rparr>)\<rparr>
                | None \<Rightarrow> l\<lparr>lru_head := n_next (lru_heap l n)\<rparr>)
      in case n_next (lru_heap l1 n) of
           Some x \<Rightarrow> l1\<lparr>lru_heap := (lru_heap l1)(x := (lru_heap l1 x)\<lparr>n_prev := n_prev (lru_heap l1 n)\<rparr>)\<rparr>
         | None \<Rightarrow> l1\<lparr>lru_tail := n_prev (lru_heap l1 n)\<rparr>)"

definition lru_moveToFront :: "nat \<Rightarrow> lru \<Rightarrow> lru" where
  "lru_moveToFront n l = lru_addFront n (lru_remove n l)"

definition lru_OnGet :: "string \<Rightarrow> lru \<Rightarrow> lru" where
  "lru_OnGet k l = (case lru_nodes l k of Some n \<Rightarrow> lru_moveToFront n l | None \<Rightarrow> l)"

definition lru_OnPut :: "string \<Rightarrow> lru \<Rightarrow> lru" where
  "lru_OnPut k l =
     (case lru_nodes l k of
        Some n \<Rightarrow> l
      | None \<Rightarrow>
          (let n = lru_fresh l;
               l1 = l\<lparr>lru_heap := (lru_heap l)(n := \<lparr>n_key = k, n_prev = None, n_next = None\<rparr>),
                      lru_fresh := Suc n\<rparr>;
               l2 = l1\<lparr>lru_nodes := (lru_nodes l1)(k \<mapsto> n)\<rparr>
           in lru_addFront n l2))"

definition lru_Evict :: "lru \<Rightarrow> string \<times> lru" where
  "lru_Evict l =
     (case lru_tail l of
        None \<Rightarrow> ([], l)
      | Some t \<Rightarrow>
          (let k = n_key (lru_heap l t);
               l1 = lru_remove t l
           in (k, l1\<lparr>lru_nodes := (lru_nodes l1)(k := None)\<rparr>)))"

definition lru_Remove :: "string \<Rightarrow> lru \<Rightarrow> lru" where
  "lru_Remove k l =
     (case lru_nodes l k of
        Some n \<Rightarrow> (let l1 = lru_remove n l in l1\<lparr>lru_nodes := (lru_nodes l1)(k := None)\<rparr>)
      | None \<Rightarrow> l)"

subsection \<open>LFU\<close>

text \<open>
  A frequency bucket \<open>map[string]*lfuNode\<close> is only ever asked for its keys; it is the
  list of its keys, without repetition. Go iterates over a map starting anywhere, so
  \<open>Evict\<close> takes the position \<open>i\<close> at which the iteration starts: any key of the
  bucket can be the first.
\<close>

record lfuNode =
  lfu_key :: string
  freq :: int

record lfu =
  lfu_nodes :: "string \<rightharpoonup> lfuNode"
  freqMap :: "int \<rightharpoonup> string list"
  minFreq :: int

definition newLFU :: lfu where
  "newLFU = \<lparr>lfu_nodes = Map.empty, freqMap = Map.empty, minFreq = 0\<rparr>"

text \<open>\<open>delete(m[f], k)\<close>: on a bucket that is missing (a nil map) it does nothing.\<close>

definition bucket_delete :: "(int \<rightharpoonup> string list) \<Rightarrow> int \<Rightarrow> string \<Rightarrow> (int \<rightharpoonup> string list)" where
  "bucket_delete m f k = (case m f of None \<Rightarrow> m | Some b \<Rightarrow> m(f \<mapsto> removeAll k b))"

text \<open>\<open>if m[f] == nil { m[f] = make(...) }; m[f][k] = n\<close>.\<close>

definition bucket_add :: "(int \<rightharpoonup> string list) \<Rightarrow> int \<Rightarrow> string \<Rightarrow> (int \<rightharpoonup> string list)" where
  "bucket_add m f k =
     (case m f of
        None \<Rightarrow> m(f \<mapsto> [k])
      | Some b \<Rightarrow> m(f \<mapsto> (if k \<in> set b then b else b @ [k])))"

definition bucket_len :: "(int \<rightharpoonup> string list) \<Rightarrow> int \<Rightarrow> nat" where
  "bucket_len m f = (case m f of None \<Rightarrow> 0 | Some b \<Rightarrow> length b)"

definition lfu_OnGet :: "string \<Rightarrow> lfu \<Rightarrow> lfu" where
  "lfu_OnGet k l =
     (case lfu_nodes l k of
        None \<Rightarrow> l
      | Some n \<Rightarrow>
          (let old = freq n;
               n' = n\<lparr>freq := freq n + 1\<rparr>;
               l1 = l\<lparr>lfu_nodes := (lfu_nodes l)(k \<mapsto> n')\<rparr>;
               l2 = l1\<lparr>freqMap := bucket_delete (freqMap l1) old k\<rparr>;
               l3 = (if bucket_len (freqMap l2) old = 0
                     then (let l2' = l2\<lparr>freqMap := (freqMap l2)(old := None)\<rparr>
                           in if minFreq l2' = old then l2'\<lparr>minFreq := minFreq l2' + 1\<rparr> else l2')
                     else l2)
           in l3\<lparr>freqMap := bucket_add (freqMap l3) (freq n') k\<rparr>))"

definition lfu_OnPut :: "string \<Rightarrow> lfu \<Rightarrow> lfu" where
  "lfu_OnPut k l =
     (case lfu_nodes l k of
        Some n \<Rightarrow> l
      | None \<Rightarrow>
          (let l1 = l\<lparr>lfu_nodes := (lfu_nodes l)(k \<mapsto> \<lparr>lfu_key = k, freq = 1\<rparr>)\<rparr>;
               l2 = l1\<lparr>freqMap := bucket_add (freqMap l1) 1 k\<rparr>
           in l2\<lparr>minFreq := 1\<rparr>))"

definition lfu_Evict :: "nat \<Rightarrow> lfu \<Rightarrow> string \<times> lfu" where
  "lfu_Evict i l =
     (case freqMap l (minFreq l) of
        None \<Rightarrow> ([], l)
      | Some b \<Rightarrow>
          (if b = [] then ([], l)
           else (let k = b ! (i mod length b);
                     l1 = l\<lparr>freqMap := bucket_delete (freqMap l) (minFreq l) k\<rparr>
                 in (k, l1\<lparr>lfu_nodes := (lfu_nodes l1)(k := None)\<rparr>))))"

definition lfu_Remove :: "string \<Rightarrow> lfu \<Rightarrow> lfu" where
  "lfu_Remove k l =
     (case lfu_nodes l k of
        None \<Rightarrow> l
      | Some n \<Rightarrow>
          (let l1 = l\<lparr>freqMap := bucket_delete (freqMap l) (freq n) k\<rparr>
           in l1\<lparr>lfu_nodes := (lfu_nodes l1)(k := None)\<rparr>))"

subsection \<open>FIFO\<close>

record fifo =
  fifo_queue :: "string list"
  fifo_set :: "string set"

definition newFIFO :: fifo where
  "newFIFO = \<lparr>fifo_queue = [], fifo_set = {}\<rparr>"

definition fifo_OnGet :: "string \<Rightarrow> fifo \<Rightarrow> fifo" where
  "fifo_OnGet k f = f"

definition fifo_OnPut :: "string \<Rightarrow> fifo \<Rightarrow> fifo" where
  "fifo_OnPut k f =
     (if k \<in> fifo_set f then f
      else f\<lparr>fifo_queue := fifo_queue f @ [k], fifo_set := insert k (fifo_set f)\<rparr>)"

definition fifo_Evict :: "fifo \<Rightarrow> string \<times> fifo" where
  "fifo_Evict f =
     (case fifo_queue f of
        [] \<Rightarrow> ([], f)
      | k # q \<Rightarrow> (k, f\<lparr>fifo_queue := q, fifo_set := fifo_set f - {k}\<rparr>))"

definition fifo_Remove :: "string \<Rightarrow> fifo \<Rightarrow> fifo" where
  "fifo_Remove k f =
     (if k \<notin> fifo_set f then f
      else f\<lparr>fifo_set := fifo_set f - {k}, fifo_queue := remove1 k (fifo_queue f)\<rparr>)"

subsection \<open>The policy interface\<close>

datatype Policy = LRUPolicy lru | LFUPolicy lfu | FIFOPolicy fifo

definition NewEvictionPolicy :: "string \<Rightarrow> panic + Policy" where
  "NewEvictionPolicy t =
     (if t = ''LRU'' then Inr (LRUPolicy newLRU)
      else if t = ''LFU'' then Inr (LFUPolicy newLFU)
      else if t = ''FIFO'' then Inr (FIFOPolicy newFIFO)
      else Inl UnknownEvictionPolicy)"

definition Policy_OnGet :: "string \<Rightarrow> Policy \<Rightarrow> Policy" where
  "Policy_OnGet k p =
     (case p of LRUPolicy l \<Rightarrow> LRUPolicy (lru_OnGet k l)
              | LFUPolicy l \<Rightarrow> LFUPolicy (lfu_OnGet k l)
              | FIFOPolicy f \<Rightarrow> FIFOPolicy (fifo_OnGet k f))"

definition Policy_OnPut :: "string \<Rightarrow> Policy \<Rightarrow> Policy" where
  "Policy_OnPut k p =
     (case p of LRUPolicy l \<Rightarrow> LRUPolicy (lru_OnPut k l)
              | LFUPolicy l \<Rightarrow> LFUPolicy (lfu_OnPut k l)
              | FIFOPolicy f \<Rightarrow> FIFOPolicy (fifo_OnPut k f))"

definition Policy_Remove :: "string \<Rightarrow> Policy \<Rightarrow> Policy" where
  "Policy_Remove k p =
     (case p of LRUPolicy l \<Rightarrow> LRUPolicy (lru_Remove k l)
              | LFUPolicy l \<Rightarrow> LFUPolicy (lfu_Remove k l)
              | FIFOPolicy f \<Rightarrow> FIFOPolicy (fifo_Remove k f))"

text \<open>Only the LFU policy iterates over a map; it takes the start of the iteration from the environment.\<close>

definition Policy_Evict :: "Policy \<Rightarrow> 'b env \<Rightarrow> string \<times> Policy \<times> 'b env" where
  "Policy_Evict p w =
     (case p of
        LRUPolicy l \<Rightarrow> (case lru_Evict l of (k, l') \<Rightarrow> (k, LRUPolicy l', w))
      | LFUPolicy l \<Rightarrow>
          (case lfu_Evict (mapiter w (ticks w)) l of
             (k, l') \<Rightarrow> (k, LFUPolicy l', w\<lparr>ticks := Suc (ticks w)\<rparr>))
      | FIFOPolicy f \<Rightarrow> (case fifo_Evict f of (k, f') \<Rightarrow> (k, FIFOPolicy f', w)))"

section \<open>The copy-on-write store\<close>

text \<open>
  The published snapshot is a map from keys to entries; the size is a counter of its
  own, written after each snapshot is published. The map holds pointers to entries; an
  entry is reachable from one key of one store only, so the store holds the entries
  themselves and a hook that writes through the pointer updates the map at that key.
\<close>

record cowStore =
  store_data :: "string \<rightharpoonup> CacheEntry"
  store_size :: int

definition NewCOWStore :: cowStore where
  "NewCOWStore = \<lparr>store_data = Map.empty, store_size = 0\<rparr>"

definition cowStore_Get :: "cowStore \<Rightarrow> string \<Rightarrow> CacheEntry option" where
  "cowStore_Get s k = store_data s k"

text \<open>\<open>len(n)\<close> of a Go map: the number of its keys.\<close>

definition map_len :: "('k \<rightharpoonup> 'v) \<Rightarrow> int" where
  "map_len m = int (card (dom m))"

definition cowStore_Put :: "string \<Rightarrow> CacheEntry \<Rightarrow> cowStore \<Rightarrow> cowStore" where
  "cowStore_Put k ent s =
     (let old = store_data s;
          n0 = (\<lambda>k'. old k');
          n = n0(k \<mapsto> ent)
      in s\<lparr>store_data := n, store_size := map_len n\<rparr>)"

definition cowStore_Delete :: "string \<Rightarrow> cowStore \<Rightarrow> cowStore" where
  "cowStore_Delete k s =
     (let old = store_data s;
          n = (\<lambda>k'. if k' \<noteq> k then old k' else None)
      in s\<lparr>store_data := n, store_size := map_len n\<rparr>)"

definition cowStore_Size :: "cowStore \<Rightarrow> int" where
  "cowStore_Size s = store_size s"

datatype store_op = StorePut string CacheEntry | StoreDelete string

fun store_run :: "store_op list \<Rightarrow> cowStore \<Rightarrow> cowStore" where
  "store_run [] s = s"
| "store_run (StorePut k ent # ops) s = store_run ops (cowStore_Put k ent s)"
| "store_run (StoreDelete k # ops) s = store_run ops (cowStore_Delete k s)"

section \<open>Shards and the selector\<close>

record Shard =
  Store :: cowStore
  Eviction :: Policy

definition NewShard :: "Policy \<Rightarrow> Shard" where
  "NewShard ev = \<lparr>Store = NewCOWStore, Eviction = ev\<rparr>"

text \<open>FNV-1a over the bytes of the key, on 32 bits.\<close>

definition hash :: "string \<Rightarrow> 32 word" where
  "hash s = fold (\<lambda>c h. (xor h (of_nat (of_char c))) * 16777619) s 2166136261"

text \<open>
  \<open>int(hash(key)) % len(shards)\<close>, with Go's 64-bit \<open>int\<close>: the hash is not
  negative. With no shard the division panics.
\<close>

definition Select :: "string \<Rightarrow> Shard list \<Rightarrow> panic + nat" where
  "Select k shs = (if length shs = 0 then Inl DivideByZero else Inr (unat (hash k) mod length shs))"

section \<open>The sharded cache\<close>

record 'b ShardedCache =
  shards :: "Shard list"
  engine :: "'b CacheEngine"
  capacity :: int

fun new_shards :: "nat \<Rightarrow> string \<Rightarrow> panic + Shard list" where
  "new_shards 0 t = Inr []"
| "new_shards (Suc n) t =
     (case NewEvictionPolicy t of
        Inl e \<Rightarrow> Inl e
      | Inr p \<Rightarrow> (case new_shards n t of Inl e \<Rightarrow> Inl e | Inr shs \<Rightarrow> Inr (NewShard p # shs)))"

definition NewShardedCache ::
  "int \<Rightarrow> int \<Rightarrow> string \<Rightarrow> 'b CacheEngine \<Rightarrow> panic + 'b ShardedCache" where
  "NewShardedCache n cap t e =
     (if n < 0 then Inl NegativeSliceLen
      else case new_shards (nat n) t of
             Inl err \<Rightarrow> Inl err
           | Inr shs \<Rightarrow> Inr \<lparr>shards = shs, engine = e, capacity = cap\<rparr>)"

definition metric_Hit :: "'b CacheEngine \<Rightarrow> 'b CacheEngine" where
  "metric_Hit e = e\<lparr>Metrics := (Metrics e)\<lparr>m_Hit := Suc (m_Hit (Metrics e))\<rparr>\<rparr>"

definition metric_Miss :: "'b CacheEngine \<Rightarrow> 'b CacheEngine" where
  "metric_Miss e = e\<lparr>Metrics := (Metrics e)\<lparr>m_Miss := Suc (m_Miss (Metrics e))\<rparr>\<rparr>"

definition metric_Eviction :: "'b CacheEngine \<Rightarrow> 'b CacheEngine" where
  "metric_Eviction e = e\<lparr>Metrics := (Metrics e)\<lparr>m_Eviction := Suc (m_Eviction (Metrics e))\<rparr>\<rparr>"

definition metric_Expire :: "'b CacheEngine \<Rightarrow> 'b CacheEngine" where
  "metric_Expire e = e\<lparr>Metrics := (Metrics e)\<lparr>m_Expire := Suc (m_Expire (Metrics e))\<rparr>\<rparr>"

definition ShardedCache_Remove :: "'b ShardedCache \<Rightarrow> string \<Rightarrow> panic + 'b ShardedCache" where
  "ShardedCache_Remove c k =
     (case Select k (shards c) of
        Inl err \<Rightarrow> Inl err
      | Inr i \<Rightarrow>
          (let sh = shards c ! i;
               sh1 = sh\<lparr>Store := cowStore_Delete k (Store sh)\<rparr>;
               sh2 = sh1\<lparr>Eviction := Policy_Remove k (Eviction sh1)\<rparr>
           in Inr (c\<lparr>shards := (shards c)[i := sh2]\<rparr>)))"

text \<open>
  Go's integer division truncates towards zero; \<open>sdiv\<close> does so on \<open>int\<close>.
\<close>

definition ShardedCache_PutWithTTL ::
  "'b ShardedCache \<Rightarrow> 'b env \<Rightarrow> string \<Rightarrow> any \<Rightarrow> Duration \<Rightarrow> panic + ('b ShardedCache \<times> 'b env)" where
  "ShardedCache_PutWithTTL c w k v ttl =
     (case Select k (shards c) of
        Inl err \<Rightarrow> Inl err
      | Inr i \<Rightarrow>
          (let sh = shards c ! i;
               (sh1, e1, w1) =
                 (if cowStore_Size (Store sh) \<ge> capacity c sdiv int (length (shards c))
                  then (case Policy_Evict (Eviction sh) w of
                          (evicted, pol, w') \<Rightarrow>
                            if evicted \<noteq> []
                            then (sh\<lparr>Eviction := pol, Store := cowStore_Delete evicted (Store sh)\<rparr>,
                                  metric_Eviction (engine c), w')
                            else (sh\<lparr>Eviction := pol\<rparr>, engine c, w'))
                  else (sh, engine c, w));
               (now, w2) = time_Now w1;
               ent = \<lparr>Key = k, Value = v, CreatedAt = now, LastAccessedAt = now, ExpireAt = 0\<rparr>;
               ent1 = (if 0 <s ttl then ent\<lparr>ExpireAt := time_Add now ttl\<rparr> else ent)
           in case CacheEngine_OnWrite e1 w2 ent1 of
                Inl err \<Rightarrow> Inl err
              | Inr (ent2, e2, w3) \<Rightarrow>
                  (let sh2 = sh1\<lparr>Store := cowStore_Put k ent2 (Store sh1)\<rparr>;
                       sh3 = sh2\<lparr>Eviction := Policy_OnPut k (Eviction sh2)\<rparr>
                   in Inr (c\<lparr>shards := (shards c)[i := sh3], engine := e2\<rparr>, w3))))"

definition ShardedCache_Put ::
  "'b ShardedCache \<Rightarrow> 'b env \<Rightarrow> string \<Rightarrow> any \<Rightarrow> panic + ('b ShardedCache \<times> 'b env)" where
  "ShardedCache_Put c w k v = ShardedCache_PutWithTTL c w k v 0"

text \<open>
  \<open>Get\<close>, in the order of the source: the lookup, with its two outcomes for a key that
  is found; then the miss path, where \<open>singleflight\<close> with one caller is the call of
  the loader itself.
\<close>

definition Get_miss ::
  "'b ShardedCache \<Rightarrow> 'b env \<Rightarrow> string \<Rightarrow> panic + ((any \<times> error) \<times> 'b ShardedCache \<times> 'b env)" where
  "Get_miss c w k =
     (let c1 = c\<lparr>engine := metric_Miss (engine c)\<rparr>
      in case CacheEngine_Load (engine c1) w k of
           Inl err \<Rightarrow> Inl err
         | Inr ((val, err), w1) \<Rightarrow>
             if err \<noteq> None \<or> val = AnyNil then Inr ((AnyNil, err), c1, w1)
             else (case ShardedCache_Put c1 w1 k val of
                     Inl p \<Rightarrow> Inl p
                   | Inr (c2, w2) \<Rightarrow> Inr ((val, None), c2, w2)))"

definition ShardedCache_Get ::
  "'b ShardedCache \<Rightarrow> 'b env \<Rightarrow> string \<Rightarrow> panic + ((any \<times> error) \<times> 'b ShardedCache \<times> 'b env)" where
  "ShardedCache_Get c w k =
     (case Select k (shards c) of
        Inl err \<Rightarrow> Inl err
      | Inr i \<Rightarrow>
          (let sh = shards c ! i
           in case cowStore_Get (Store sh) k of
                None \<Rightarrow> Get_miss c w k
              | Some ent \<Rightarrow>
                  (case CacheEngine_IsExpired (engine c) w ent of
                     (True, w1) \<Rightarrow>
                       (case ShardedCache_Remove (c\<lparr>engine := metric_Expire (engine c)\<rparr>) k of
                          Inl err \<Rightarrow> Inl err
                        | Inr c1 \<Rightarrow> Get_miss c1 w1 k)
                   | (False, w1) \<Rightarrow>
                       (case CacheEngine_OnRead (metric_Hit (engine c)) w1 k ent of
                          (ent1, e1, w2) \<Rightarrow>
                            (let st = Store sh;
                                 sh1 = sh\<lparr>Store := st\<lparr>store_data := (store_data st)(k \<mapsto> ent1)\<rparr>\<rparr>;
                                 sh2 = sh1\<lparr>Eviction := Policy_OnGet k (Eviction sh1)\<rparr>
                             in Inr ((Value ent1, None),
                                     c\<lparr>shards := (shards c)[i := sh2], engine := e1\<rparr>, w2))))))"

definition ShardedCache_Expire ::
  "'b ShardedCache \<Rightarrow> 'b env \<Rightarrow> string \<Rightarrow> Duration \<Rightarrow> panic + (bool \<times> 'b ShardedCache \<times> 'b env)" where
  "ShardedCache_Expire c w k ttl =
     (case Select k (shards c) of
        Inl err \<Rightarrow> Inl err
      | Inr i \<Rightarrow>
          (let sh = shards c ! i
           in case cowStore_Get (Store sh) k of
                None \<Rightarrow> Inr (False, c, w)
              | Some ent \<Rightarrow>
                  (case time_Now w of
                     (now, w1) \<Rightarrow>
                       (let st = Store sh;
                            ent1 = ent\<lparr>ExpireAt := time_Add now ttl\<rparr>;
                            sh1 = sh\<lparr>Store := st\<lparr>store_data := (store_data st)(k \<mapsto> ent1)\<rparr>\<rparr>
                        in Inr (True, c\<lparr>shards := (shards c)[i := sh1]\<rparr>, w1)))))"

definition ShardedCache_TTL ::
  "'b ShardedCache \<Rightarrow> 'b env \<Rightarrow> string \<Rightarrow> panic + (Duration \<times> 'b env)" where
  "ShardedCache_TTL c w k =
     (case Select k (shards c) of
        Inl err \<Rightarrow> Inl err
      | Inr i \<Rightarrow>
          (let sh = shards c ! i
           in case cowStore_Get (Store sh) k of
                None \<Rightarrow> Inr (- 1, w)
              | Some ent \<Rightarrow>
                  if time_IsZero (ExpireAt ent) then Inr (- 1, w)
                  else (case time_Until (ExpireAt ent) w of
                          (d, w1) \<Rightarrow> if d <s 0 then Inr (- 2, w1) else Inr (d, w1))))"

definition ShardedCache_Close ::
  "'b ShardedCache \<Rightarrow> 'b env \<Rightarrow> panic + ('b ShardedCache \<times> 'b env) option" where
  "ShardedCache_Close c w =
     (case WritePolicy (engine c) of
        None \<Rightarrow> Inr (Some (c, w))
      | Some p \<Rightarrow>
          (case WritePolicy_Close p w of
             Inl err \<Rightarrow> Inl err
           | Inr None \<Rightarrow> Inr None
           | Inr (Some (p', w')) \<Rightarrow> Inr (Some (c\<lparr>engine := (engine c)\<lparr>WritePolicy := Some p'\<rparr>\<rparr>, w'))))"

text \<open>A backing store that logs every \<open>Put\<close> it receives and loads nothing.\<close>

definition log_store :: "(string \<times> any) list Loader" where
  "log_store = \<lparr>Loader_Load = (\<lambda>b k. ((AnyNil, None), b)),
                Loader_Put = (\<lambda>b k v. (None, b @ [(k, v)]))\<rparr>"

definition env0 :: "'b \<Rightarrow> 'b env" where
  "env0 b = \<lparr>clock = (\<lambda>n. 1000 + int n), mapiter = (\<lambda>n. n), parked = (\<lambda>n. even n),
             ticks = 0, backing = b\<rparr>"

section \<open>Fixtures for concrete runs\<close>

definition ent_of :: "string \<Rightarrow> any \<Rightarrow> CacheEntry" where
  "ent_of k v = \<lparr>Key = k, Value = v, CreatedAt = 0, LastAccessedAt = 0, ExpireAt = 0\<rparr>"

definition store_ab :: cowStore where
  "store_ab = store_run [StorePut ''a'' (ent_of ''a'' (AnyInt 1)), StorePut ''b'' (ent_of ''b'' (AnyInt 2)),
                StoreDelete ''a''] NewCOWStore"

definition eng0 :: "(string \<times> any) list CacheEngine" where
  "eng0 = \<lparr>Expiration = None, RefreshHook = None, Loader = Some log_store, WritePolicy = None,
           Metrics = \<lparr>m_Hit = 0, m_Miss = 0, m_Eviction = 0, m_Expire = 0, m_Refresh = 0\<rparr>\<rparr>"

text \<open>Sequences of calls of the cache's operations, results dropped.\<close>

datatype cache_op = OpPut string any | OpPutWithTTL string any Duration | OpGet string
  | OpRemove string | OpExpire string Duration

fun cache_step :: "cache_op \<Rightarrow> 'b ShardedCache \<Rightarrow> 'b env \<Rightarrow> panic + ('b ShardedCache \<times> 'b env)" where
  "cache_step (OpPut k v) c w = ShardedCache_Put c w k v"
| "cache_step (OpPutWithTTL k v ttl) c w = ShardedCache_PutWithTTL c w k v ttl"
| "cache_step (OpGet k) c w =
     (case ShardedCache_Get c w k of Inl e \<Rightarrow> Inl e | Inr (r, c', w') \<Rightarrow> Inr (c', w'))"
| "cache_step (OpRemove k) c w =
     (case ShardedCache_Remove c k of Inl e \<Rightarrow> Inl e | Inr c' \<Rightarrow> Inr (c', w))"
| "cache_step (OpExpire k ttl) c w =
     (case ShardedCache_Expire c w k ttl of Inl e \<Rightarrow> Inl e | Inr (r, c', w') \<Rightarrow> Inr (c', w'))"

fun cache_run :: "cache_op list \<Rightarrow> 'b ShardedCache \<Rightarrow> 'b env \<Rightarrow> panic + ('b ShardedCache \<times> 'b env)" where
  "cache_run [] c w = Inr (c, w)"
| "cache_run (x # xs) c w =
     (case cache_step x c w of Inl e \<Rightarrow> Inl e | Inr (c', w') \<Rightarrow> cache_run xs c' w')"

definition shard_sizes :: "panic + ('b ShardedCache \<times> 'b env) \<Rightarrow> int list" where
  "shard_sizes r = (case r of Inl e \<Rightarrow> [] | Inr (c, w) \<Rightarrow> map (\<lambda>sh. cowStore_Size (Store sh)) (shards c))"

text \<open>\<open>Put(k, v)\<close> followed by \<open>Get(k)\<close>: what the \<open>Get\<close> returns.\<close>

definition put_get ::
  "'b ShardedCache \<Rightarrow> 'b env \<Rightarrow> string \<Rightarrow> any \<Rightarrow> panic + (any \<times> error)" where
  "put_get c w k v =
     (case ShardedCache_Put c w k v of
        Inl e \<Rightarrow> Inl e
      | Inr (c1, w1) \<Rightarrow>
          (case ShardedCache_Get c1 w1 k of Inl e \<Rightarrow> Inl e | Inr (r, c2, w2) \<Rightarrow> Inr r))"

text \<open>A one-shard cache with the sliding-TTL strategy, and a clock that advances by \<open>d\<close> at every reading.\<close>

definition sliding_cache :: "Duration \<Rightarrow> (string \<times> any) list ShardedCache" where
  "sliding_cache ttl =
     \<lparr>shards = [NewShard (LRUPolicy newLRU)],
      engine = eng0\<lparr>Expiration := Some \<lparr>TTL = ttl\<rparr>\<rparr>, capacity = 10\<rparr>"

definition env_step :: "int \<Rightarrow> (string \<times> any) list env" where
  "env_step d = \<lparr>clock = (\<lambda>n. 1000 + d * int n), mapiter = (\<lambda>n. n), parked = (\<lambda>n. False),
             ticks = 0, backing = []\<rparr>"

text \<open>A loader that fails for one key, finds another and finds nothing else.\<close>

definition test_loader :: "unit Loader" where
  "test_loader =
     \<lparr>Loader_Load = (\<lambda>b k. if k = ''bad'' then ((AnyStr ''partial'', Some ''boom''), b)
                            else if k = ''ok'' then ((AnyStr ''v'', None), b)
                            else ((AnyNil, None), b)),
      Loader_Put = (\<lambda>b k v. (None, b))\<rparr>"

definition loading_cache :: "unit ShardedCache" where
  "loading_cache =
     \<lparr>shards = [NewShard (FIFOPolicy newFIFO)],
      engine = \<lparr>Expiration = None, RefreshHook = None, Loader = Some test_loader, WritePolicy = None,
           Metrics = \<lparr>m_Hit = 0, m_Miss = 0, m_Eviction = 0, m_Expire = 0, m_Refresh = 0\<rparr>\<rparr>,
      capacity = 10\<rparr>"

section \<open>Runs of the LRU policy and its recency order\<close>

datatype pol_op = PGet string | PPut string | PRemove string | PEvict

text \<open>A run of the policy returns what its \<open>Evict\<close> calls returned, in order.\<close>

fun lru_step :: "pol_op \<Rightarrow> lru \<Rightarrow> string list \<times> lru" where
  "lru_step (PGet k) l = ([], lru_OnGet k l)"
| "lru_step (PPut k) l = ([], lru_OnPut k l)"
| "lru_step (PRemove k) l = ([], lru_Remove k l)"
| "lru_step PEvict l = (case lru_Evict l of (k, l') \<Rightarrow> ([k], l'))"

fun lru_run :: "pol_op list \<Rightarrow> lru \<Rightarrow> string list \<times> lru" where
  "lru_run [] l = ([], l)"
| "lru_run (x # xs) l =
     (case lru_step x l of (out, l') \<Rightarrow> (case lru_run xs l' of (outs, l'') \<Rightarrow> (out @ outs, l'')))"

text \<open>
  The order the list is meant to keep: the tracked keys, most recently used first, where
  a key is used when \<open>OnPut\<close> inserts it as a new key and when \<open>OnGet\<close> reads it.
  \<open>Evict\<close> takes the key at the old end.
\<close>

fun recency_step :: "pol_op \<Rightarrow> string list \<Rightarrow> string list \<times> string list" where
  "recency_step (PGet k) xs = ([], if k \<in> set xs then k # remove1 k xs else xs)"
| "recency_step (PPut k) xs = ([], if k \<in> set xs then xs else k # xs)"
| "recency_step (PRemove k) xs = ([], remove1 k xs)"
| "recency_step PEvict xs = (if xs = [] then ([[]], []) else ([last xs], butlast xs))"

fun recency_run :: "pol_op list \<Rightarrow> string list \<Rightarrow> string list \<times> string list" where
  "recency_run [] xs = ([], xs)"
| "recency_run (x # ops) xs =
     (case recency_step x xs of (out, xs') \<Rightarrow>
        (case recency_run ops xs' of (outs, xs'') \<Rightarrow> (out @ outs, xs'')))"

text \<open>
  \<open>moveToFront\<close> leaves the moved node's \<open>prev\<close> pointer as it was (\<open>addFront\<close> sets
  \<open>next\<close> only), so a node that \<open>OnGet\<close> moved to the head from further back carries
  a stale \<open>prev\<close> until a new node is put in front of it. \<open>guard_step\<close> follows this
  flag along a run, from the calls alone: it answers \<open>None\<close> when a call unlinks the
  head node while the flag is set (a second \<open>OnGet\<close> of that key, its \<open>Remove\<close>, or an
  \<open>Evict\<close> when it is the only node), and the new flag otherwise. \<open>lru_clean\<close> holds
  of the runs in which that never happens.
\<close>

fun guard_step :: "pol_op \<Rightarrow> string list \<Rightarrow> bool \<Rightarrow> bool option" where
  "guard_step (PPut k) xs st = Some (if k \<in> set xs then st else False)"
| "guard_step (PGet k) xs st =
     (if k \<notin> set xs then Some st
      else if hd xs = k then (if st then None else Some False)
      else Some True)"
| "guard_step (PRemove k) xs st =
     (if k \<notin> set xs then Some st
      else if hd xs = k then (if st then None else Some False)
      else Some st)"
| "guard_step PEvict xs st =
     (if length xs = 1 then (if st then None else Some False) else Some st)"

fun lru_clean :: "pol_op list \<Rightarrow> string list \<Rightarrow> bool \<Rightarrow> bool" where
  "lru_clean [] xs st = True"
| "lru_clean (x # ops) xs st =
     (case guard_step x xs st of
        None \<Rightarrow> False
      | Some st' \<Rightarrow> lru_clean ops (snd (recency_step x xs)) st')"

text \<open>
  The rule of claim C5 in its own words: the key to evict is the one least recently read
  by \<open>OnGet\<close>; keys never read come before every key that was read, the earliest
  inserted first. The state is the keys that were read, most recently read first, and
  the keys never read, in the order of their insertion.
\<close>

fun least_recently_read_step ::
  "pol_op \<Rightarrow> string list \<times> string list \<Rightarrow> string list \<times> (string list \<times> string list)" where
  "least_recently_read_step (PGet k) (rs, us) =
     ([], if k \<in> set rs \<union> set us then (k # remove1 k rs, remove1 k us) else (rs, us))"
| "least_recently_read_step (PPut k) (rs, us) =
     ([], if k \<in> set rs \<union> set us then (rs, us) else (rs, us @ [k]))"
| "least_recently_read_step (PRemove k) (rs, us) = ([], (remove1 k rs, remove1 k us))"
| "least_recently_read_step PEvict (rs, us) =
     (case us of
        u # us' \<Rightarrow> ([u], (rs, us'))
      | [] \<Rightarrow> if rs = [] then ([[]], ([], [])) else ([last rs], (butlast rs, [])))"

fun least_recently_read_run ::
  "pol_op list \<Rightarrow> string list \<times> string list \<Rightarrow> string list \<times> (string list \<times> string list)" where
  "least_recently_read_run [] s = ([], s)"
| "least_recently_read_run (x # ops) s =
     (case least_recently_read_step x s of (out, s') \<Rightarrow>
        (case least_recently_read_run ops s' of (outs, s'') \<Rightarrow> (out @ outs, s'')))"

text \<open>
  The linked list as a list of addresses. \<open>path f h s as e\<close>: following the pointer
  \<open>f\<close> from \<open>s\<close> visits the nodes \<open>as\<close> in order and ends with the pointer \<open>e\<close>.
  \<open>lru_list l as st\<close>: from \<open>head\<close> the \<open>next\<close> pointers visit \<open>as\<close> and end in
  nil; from \<open>tail\<close> the \<open>prev\<close> pointers visit \<open>as\<close> backwards and end in the head
  node's \<open>prev\<close>, which is nil unless the flag \<open>st\<close> is set. \<open>lru_index l as\<close>:
  the map \<open>nodes\<close> holds exactly the nodes of the list, each under its key.
\<close>

fun path :: "(lruNode \<Rightarrow> nat option) \<Rightarrow> (nat \<Rightarrow> lruNode) \<Rightarrow> nat option \<Rightarrow> nat list \<Rightarrow> nat option \<Rightarrow> bool" where
  "path f h s [] e = (s = e)"
| "path f h s (a # as) e = (s = Some a \<and> path f h (f (h a)) as e)"

definition lru_list :: "lru \<Rightarrow> nat list \<Rightarrow> bool \<Rightarrow> bool" where
  "lru_list l as st =
     (distinct as \<and> path n_next (lru_heap l) (lru_head l) as None
      \<and> (\<exists>e. path n_prev (lru_heap l) (lru_tail l) (rev as) e \<and> ((st \<and> as \<noteq> []) \<or> e = None)))"

definition lru_keys :: "lru \<Rightarrow> nat list \<Rightarrow> string list" where
  "lru_keys l as = map (\<lambda>a. n_key (lru_heap l a)) as"

definition lru_index :: "lru \<Rightarrow> nat list \<Rightarrow> bool" where
  "lru_index l as =
     (distinct (lru_keys l as) \<and> (\<forall>a\<in>set as. a < lru_fresh l)
      \<and> (\<forall>k a. (lru_nodes l k = Some a) = (a \<in> set as \<and> n_key (lru_heap l a) = k)))"

section \<open>The bookkeeping of the LFU policy\<close>

text \<open>
  What the policy's maps are meant to say of each other: a tracked key has a frequency of
  at least 1 and at least minFreq, and sits in the bucket of its frequency; and a bucket
  holds tracked keys of its frequency only. (Not: that the bucket of minFreq is not
  empty. Evict and Remove leave minFreq as it is.)
\<close>

definition lfu_inv :: "lfu \<Rightarrow> bool" where
  "lfu_inv l =
     ((\<forall>k n. lfu_nodes l k = Some n \<longrightarrow>
          1 \<le> freq n \<and> minFreq l \<le> freq n \<and> (\<exists>b. freqMap l (freq n) = Some b \<and> k \<in> set b))
      \<and> (\<forall>f b k. freqMap l f = Some b \<longrightarrow> k \<in> set b \<longrightarrow>
            (\<exists>n. lfu_nodes l k = Some n \<and> freq n = f)))"

inductive lfu_reach :: "lfu \<Rightarrow> bool" where
  "lfu_reach newLFU"
| "lfu_reach l \<Longrightarrow> lfu_reach (lfu_OnGet k l)"
| "lfu_reach l \<Longrightarrow> lfu_reach (lfu_OnPut k l)"
| "lfu_reach l \<Longrightarrow> lfu_reach (lfu_Remove k l)"
| "lfu_reach l \<Longrightarrow> lfu_reach (snd (lfu_Evict i l))"

text \<open>The entry as the expiration strategy's write hook leaves it, at the clock's next reading.\<close>

definition after_write_hook :: "'b CacheEngine \<Rightarrow> 'b env \<Rightarrow> CacheEntry \<Rightarrow> CacheEntry" where
  "after_write_hook e w ent =
     (case Expiration e of
        None \<Rightarrow> ent
      | Some s \<Rightarrow> ExpireAfterAccess_OnWrite s ent (clock w (ticks w)))"

text \<open>An engine that writes through to the logging store.\<close>

definition through_engine :: "ExpireAfterAccess option \<Rightarrow> (string \<times> any) list CacheEngine" where
  "through_engine x = eng0\<lparr>Expiration := x, WritePolicy := Some (WriteThrough \<lparr>wt_store = log_store\<rparr>)\<rparr>"

section \<open>Properties of the expiration strategy\<close>

text \<open>
  Claim C3. For the expire-after-access strategy with parameter TTL, any entry and any
  time now: IsExpired is true exactly when the entry's expiry is set (not the zero
  instant) and now is after it; OnWrite sets createdAt and lastAccessedAt to now and
  sets the expiry to now + TTL only when no expiry is set yet, leaving an expiry that
  is already set as it is; OnAccess sets the expiry to now + TTL whatever it was (and
  lastAccessedAt to now). Key and value are never touched.
\<close>

theorem expire_after_access_hooks:
  "ExpireAfterAccess_IsExpired e ent now = (ExpireAt ent \<noteq> 0 \<and> ExpireAt ent < now)
   \<and> CreatedAt (ExpireAfterAccess_OnWrite e ent now) = now
   \<and> LastAccessedAt (ExpireAfterAccess_OnWrite e ent now) = now
   \<and> ExpireAt (ExpireAfterAccess_OnWrite e ent now) =
       (if ExpireAt ent = 0 then now + sint (TTL e) else ExpireAt ent)
   \<and> Key (ExpireAfterAccess_OnWrite e ent now) = Key ent
   \<and> Value (ExpireAfterAccess_OnWrite e ent now) = Value ent
   \<and> ExpireAt (ExpireAfterAccess_OnAccess e ent now) = now + sint (TTL e)
   \<and> LastAccessedAt (ExpireAfterAccess_OnAccess e ent now) = now
   \<and> CreatedAt (ExpireAfterAccess_OnAccess e ent now) = CreatedAt ent
   \<and> Key (ExpireAfterAccess_OnAccess e ent now) = Key ent
   \<and> Value (ExpireAfterAccess_OnAccess e ent now) = Value ent"
  by (simp add: ExpireAfterAccess_IsExpired_def ExpireAfterAccess_OnWrite_def
      ExpireAfterAccess_OnAccess_def time_IsZero_def time_After_def time_Add_def Let_def)

section \<open>Properties of the engine's write hook\<close>

text \<open>
  Claim C2. For every entry, the engine's OnWrite first runs the expiration strategy's
  write hook (when a strategy is configured) and then hands the entry's key and value to
  the configured write policy if and only if the entry's expiry is still the zero
  instant after the hook: when it is not, the engine with its write policy and the
  backing store are left as they were; when it is, the result is that of the policy's
  OnWrite on the key and the value. Seen from a write-through policy: the backing store
  has received Put for the key and the value exactly when the expiry is unset after the
  hook. With the sliding-TTL strategy configured the expiry is unset after the hook only
  when it was unset before and now + TTL is itself the zero instant.
\<close>

theorem engine_OnWrite_forwards_iff_unset:
  "(ExpireAt (after_write_hook e w ent) \<noteq> 0 \<longrightarrow>
      CacheEngine_OnWrite e w ent = Inr (after_write_hook e w ent, e, w\<lparr>ticks := Suc (ticks w)\<rparr>))
   \<and> (ExpireAt (after_write_hook e w ent) = 0 \<longrightarrow>
      CacheEngine_OnWrite e w ent =
        (case WritePolicy e of
           None \<Rightarrow> Inr (after_write_hook e w ent, e, w\<lparr>ticks := Suc (ticks w)\<rparr>)
         | Some p \<Rightarrow>
             (case WritePolicy_OnWrite p (w\<lparr>ticks := Suc (ticks w)\<rparr>) (Key ent) (Value ent) of
                Inl err \<Rightarrow> Inl err
              | Inr (p', w2) \<Rightarrow> Inr (after_write_hook e w ent, e\<lparr>WritePolicy := Some p'\<rparr>, w2))))
   \<and> (WritePolicy e = Some (WriteThrough t) \<longrightarrow>
        (\<exists>e' w'. CacheEngine_OnWrite e w ent = Inr (after_write_hook e w ent, e', w')
           \<and> backing w' = (if ExpireAt (after_write_hook e w ent) = 0
                            then snd (Loader_Put (wt_store t) (backing w) (Key ent) (Value ent))
                            else backing w)))
   \<and> (Expiration e = Some s \<longrightarrow>
        (ExpireAt (after_write_hook e w ent) = 0)
          = (ExpireAt ent = 0 \<and> clock w (ticks w) + sint (TTL s) = 0))"
proof -
  have kv: "Key (after_write_hook e w ent) = Key ent" "Value (after_write_hook e w ent) = Value ent"
    by (simp_all add: after_write_hook_def ExpireAfterAccess_OnWrite_def Let_def split: option.splits)
  have ow: "CacheEngine_OnWrite e w ent =
        (if ExpireAt (after_write_hook e w ent) \<noteq> 0
         then Inr (after_write_hook e w ent, e, w\<lparr>ticks := Suc (ticks w)\<rparr>)
         else (case WritePolicy e of
           None \<Rightarrow> Inr (after_write_hook e w ent, e, w\<lparr>ticks := Suc (ticks w)\<rparr>)
         | Some p \<Rightarrow>
             (case WritePolicy_OnWrite p (w\<lparr>ticks := Suc (ticks w)\<rparr>)
                     (Key (after_write_hook e w ent)) (Value (after_write_hook e w ent)) of
                Inl err \<Rightarrow> Inl err
              | Inr (p', w2) \<Rightarrow> Inr (after_write_hook e w ent, e\<lparr>WritePolicy := Some p'\<rparr>, w2))))"
    unfolding CacheEngine_OnWrite_def after_write_hook_def time_Now_def Let_def time_IsZero_def
    by simp
  have a: "CacheEngine_OnWrite e w ent = Inr (after_write_hook e w ent, e, w\<lparr>ticks := Suc (ticks w)\<rparr>)"
    if "ExpireAt (after_write_hook e w ent) \<noteq> 0"
    using that by (simp add: ow)
  have b: "CacheEngine_OnWrite e w ent =
        (case WritePolicy e of
           None \<Rightarrow> Inr (after_write_hook e w ent, e, w\<lparr>ticks := Suc (ticks w)\<rparr>)
         | Some p \<Rightarrow>
             (case WritePolicy_OnWrite p (w\<lparr>ticks := Suc (ticks w)\<rparr>) (Key ent) (Value ent) of
                Inl err \<Rightarrow> Inl err
              | Inr (p', w2) \<Rightarrow> Inr (after_write_hook e w ent, e\<lparr>WritePolicy := Some p'\<rparr>, w2)))"
    if "ExpireAt (after_write_hook e w ent) = 0"
    using that by (simp add: ow kv split: option.splits)
  have c: "\<exists>e' w'. CacheEngine_OnWrite e w ent = Inr (after_write_hook e w ent, e', w')
           \<and> backing w' = (if ExpireAt (after_write_hook e w ent) = 0
                            then snd (Loader_Put (wt_store t) (backing w) (Key ent) (Value ent))
                            else backing w)"
    if "WritePolicy e = Some (WriteThrough t)"
    using that a b
    by (cases "ExpireAt (after_write_hook e w ent) = 0")
       (auto simp: WritePolicy_OnWrite_def WriteThroughPolicy_OnWrite_def)
  have d: "(ExpireAt (after_write_hook e w ent) = 0)
          = (ExpireAt ent = 0 \<and> clock w (ticks w) + sint (TTL s) = 0)"
    if "Expiration e = Some s"
    using that
    by (simp add: after_write_hook_def ExpireAfterAccess_OnWrite_def Let_def time_IsZero_def time_Add_def)
  show ?thesis using a b c d by blast
qed

theorem engine_OnWrite_forwards_iff_unset_witness:
  "(\<exists>e' w'. CacheEngine_OnWrite (through_engine None) (env0 []) (ent_of ''k'' (AnyInt 7))
              = Inr (ent_of ''k'' (AnyInt 7), e', w')
        \<and> backing w' = [(''k'', AnyInt 7)])
   \<and> (\<exists>e' w'. CacheEngine_OnWrite (through_engine (Some \<lparr>TTL = 10\<rparr>)) (env0 []) (ent_of ''k'' (AnyInt 7))
              = Inr ((ent_of ''k'' (AnyInt 7))\<lparr>CreatedAt := 1000, LastAccessedAt := 1000, ExpireAt := 1010\<rparr>, e', w')
        \<and> backing w' = [])"
proof -
  have h1: "after_write_hook (through_engine None) (env0 []) (ent_of ''k'' (AnyInt 7))
              = ent_of ''k'' (AnyInt 7)"
    by (simp add: after_write_hook_def through_engine_def)
  have h2: "after_write_hook (through_engine (Some \<lparr>TTL = 10\<rparr>)) (env0 []) (ent_of ''k'' (AnyInt 7))
              = (ent_of ''k'' (AnyInt 7))\<lparr>CreatedAt := 1000, LastAccessedAt := 1000, ExpireAt := 1010\<rparr>"
    by (simp add: after_write_hook_def through_engine_def ExpireAfterAccess_OnWrite_def Let_def
        time_IsZero_def time_Add_def ent_of_def env0_def)
  have p: "WritePolicy (through_engine x) = Some (WriteThrough \<lparr>wt_store = log_store\<rparr>)" for x
    by (simp add: through_engine_def)
  note t1 = engine_OnWrite_forwards_iff_unset
      [of "through_engine None" "env0 []" "ent_of ''k'' (AnyInt 7)" "\<lparr>wt_store = log_store\<rparr>",
       THEN conjunct2, THEN conjunct2, THEN conjunct1, rule_format, OF p, unfolded h1]
  note t2 = engine_OnWrite_forwards_iff_unset
      [of "through_engine (Some \<lparr>TTL = 10\<rparr>)" "env0 []" "ent_of ''k'' (AnyInt 7)" "\<lparr>wt_store = log_store\<rparr>",
       THEN conjunct2, THEN conjunct2, THEN conjunct1, rule_format, OF p, unfolded h2]
  have b1: "snd (Loader_Put log_store [] ''k'' (AnyInt 7)) = [(''k'', AnyInt 7)]"
    and b2: "backing (env0 []) = []"
    by (simp_all add: log_store_def env0_def)
  show ?thesis
    using t1 t2 by (simp add: b1 b2 ent_of_def)
qed

section \<open>Properties of the write-back policy\<close>

lemma forward_append: "forward st b (xs @ ys) = forward st (forward st b xs) ys"
  by (induction xs arbitrary: b) auto

lemma worker_step_pending:
  "\<not> worker_done p \<Longrightarrow> worker_step p b = (p', b') \<Longrightarrow>
   forward (wb_store p) b (pending p) = forward (wb_store p') b' (pending p')
   \<and> wb_store p' = wb_store p \<and> ch_closed p' = ch_closed p \<and> ch_cap p' = ch_cap p
   \<and> length (ch_buf p') \<le> length (ch_buf p)
   \<and> (\<not> ch_closed p \<longrightarrow> \<not> worker_done p')"
  by (auto simp: worker_step_def pending_def split: option.splits list.splits if_splits)

lemma worker_wait_closed:
  "ch_closed p \<Longrightarrow>
   worker_wait p b =
     Some (if worker_done p then (p, b)
           else (p\<lparr>ch_buf := [], inflight := None, worker_done := True\<rparr>,
                 forward (wb_store p) b (pending p)))"
proof (induction p b rule: worker_wait.induct)
  case (1 p b)
  show ?case
  proof (cases "worker_done p")
    case True
    then show ?thesis by simp
  next
    case False
    obtain p' b' where st: "worker_step p b = (p', b')" by (cases "worker_step p b")
    from worker_step_pending[OF False st] 1(2)
    have inv: "forward (wb_store p) b (pending p) = forward (wb_store p') b' (pending p')"
      "wb_store p' = wb_store p" "ch_closed p'" by auto
    have ih: "worker_wait p' b' =
     Some (if worker_done p' then (p', b')
           else (p'\<lparr>ch_buf := [], inflight := None, worker_done := True\<rparr>,
                 forward (wb_store p') b' (pending p')))"
      using 1(1)[OF False] 1(2) st inv by simp
    have unf: "worker_wait p b = worker_wait p' b'"
      using False 1(2) st by (subst worker_wait.simps) simp
    show ?thesis
    proof (cases "worker_done p'")
      case True
      then have "inflight p = None" "ch_buf p = []" "p' = p\<lparr>worker_done := True\<rparr>" "b' = b"
        using st False by (auto simp: worker_step_def split: option.splits list.splits if_splits)
      then show ?thesis using unf ih True False by (simp add: pending_def)
    next
      case F2: False
      have "p'\<lparr>ch_buf := [], inflight := None, worker_done := True\<rparr> = p\<lparr>ch_buf := [], inflight := None, worker_done := True\<rparr>"
        using st False by (auto simp: worker_step_def split: option.splits list.splits if_splits)
      then show ?thesis using unf ih F2 False inv by simp
    qed
  qed
qed

lemma wb_run_accepts:
  "\<not> ch_closed p \<Longrightarrow> \<not> worker_done p \<Longrightarrow>
   length (ch_buf p) + length (writes es) \<le> ch_cap p \<Longrightarrow>
   \<exists>p1 w1. wb_run es p w = Inr (p1, w1)
     \<and> forward (wb_store p) (backing w1) (pending p1)
         = forward (wb_store p) (backing w) (pending p @ writes es)
     \<and> wb_store p1 = wb_store p \<and> \<not> ch_closed p1 \<and> \<not> worker_done p1"
proof (induction es p w rule: wb_run.induct)
  case (1 p w)
  then show ?case by simp
next
  case (2 k v es p w)
  let ?r = "\<lparr>req_key = k, req_value = v\<rparr>"
  let ?w = "w\<lparr>ticks := Suc (ticks w)\<rparr>"
  show ?case
  proof (cases "parked w (ticks w) \<and> inflight p = None \<and> ch_buf p = []")
    case True
    let ?p = "p\<lparr>inflight := Some ?r\<rparr>"
    have st: "WriteBackPolicy_OnWrite p w k v = Inr (?p, ?w)"
      using True 2(2,3) by (simp add: WriteBackPolicy_OnWrite_def)
    have "\<exists>p1 w1. wb_run es ?p ?w = Inr (p1, w1)
     \<and> forward (wb_store ?p) (backing w1) (pending p1)
         = forward (wb_store ?p) (backing ?w) (pending ?p @ writes es)
     \<and> wb_store p1 = wb_store ?p \<and> \<not> ch_closed p1 \<and> \<not> worker_done p1"
      using 2(1)[OF st refl] 2(2,3,4) by simp
    then show ?thesis using st True by (auto simp: pending_def)
  next
    case False
    let ?p = "p\<lparr>ch_buf := ch_buf p @ [?r]\<rparr>"
    have st: "WriteBackPolicy_OnWrite p w k v = Inr (?p, ?w)"
      using False 2(2,3,4) by (auto simp: WriteBackPolicy_OnWrite_def)
    have "\<exists>p1 w1. wb_run es ?p ?w = Inr (p1, w1)
     \<and> forward (wb_store ?p) (backing w1) (pending p1)
         = forward (wb_store ?p) (backing ?w) (pending ?p @ writes es)
     \<and> wb_store p1 = wb_store ?p \<and> \<not> ch_closed p1 \<and> \<not> worker_done p1"
      using 2(1)[OF st refl] 2(2,3,4) by simp
    then show ?thesis using st by (auto simp: pending_def)
  qed
next
  case (3 es p w)
  obtain p' b' where st: "worker_step p (backing w) = (p', b')" by (cases "worker_step p (backing w)")
  note inv = worker_step_pending[OF 3(3) st]
  have "\<exists>p1 w1. wb_run es p' (w\<lparr>backing := b'\<rparr>) = Inr (p1, w1)
     \<and> forward (wb_store p') (backing w1) (pending p1)
         = forward (wb_store p') (backing (w\<lparr>backing := b'\<rparr>)) (pending p' @ writes es)
     \<and> wb_store p1 = wb_store p' \<and> \<not> ch_closed p1 \<and> \<not> worker_done p1"
    using 3(1)[OF st[symmetric]] inv 3(2,3,4) by simp
  then show ?case using st inv by (auto simp: forward_append)
qed

text \<open>
  Claim C9. A write-back policy is created with a buffer of size \<open>buffer\<close>; then, in
  any interleaving with the worker's steps, M writes are handed to OnWrite, with M at
  most \<open>buffer\<close>. Then none of them is dropped, the run ends without a panic, and Close
  returns; when it has returned, the backing store is the one obtained by calling its
  Put for each of the M writes, in the order they were written, nothing is pending, the
  worker has returned, and every later OnWrite is refused (a send on the closed channel,
  which panics).
\<close>

theorem write_back_close_flushes:
  assumes new: "NewWriteBackPolicy st buffer = Inr p0"
    and fits: "int (length (writes es)) \<le> buffer"
  shows "\<exists>p1 w1 p2 w2.
      wb_run es p0 w = Inr (p1, w1)
    \<and> WriteBackPolicy_Close p1 w1 = Inr (Some (p2, w2))
    \<and> backing w2 = forward st (backing w) (writes es)
    \<and> pending p2 = [] \<and> worker_done p2
    \<and> (\<forall>w' k v. WriteBackPolicy_OnWrite p2 w' k v = Inl SendOnClosedChannel)"
proof -
  from new have p0: "p0 = \<lparr>wb_store = st, ch_buf = [], ch_cap = nat buffer, ch_closed = False,
                inflight = None, worker_done = False\<rparr>" and nn: "0 \<le> buffer"
    by (auto simp: NewWriteBackPolicy_def split: if_splits)
  have "length (ch_buf p0) + length (writes es) \<le> ch_cap p0" using fits nn p0 by simp
  moreover have "\<not> ch_closed p0" "\<not> worker_done p0" using p0 by simp_all
  ultimately obtain p1 w1 where run: "wb_run es p0 w = Inr (p1, w1)"
    and fw: "forward (wb_store p0) (backing w1) (pending p1)
         = forward (wb_store p0) (backing w) (pending p0 @ writes es)"
    and st1: "wb_store p1 = wb_store p0" "\<not> ch_closed p1" "\<not> worker_done p1"
    using wb_run_accepts[of p0 es w] by blast
  let ?q = "p1\<lparr>ch_closed := True\<rparr>"
  have ww: "worker_wait ?q (backing w1) =
     Some (?q\<lparr>ch_buf := [], inflight := None, worker_done := True\<rparr>,
                 forward (wb_store ?q) (backing w1) (pending ?q))"
    using worker_wait_closed[of ?q "backing w1"] st1 by simp
  have pq: "pending ?q = pending p1" by (simp add: pending_def)
  let ?p2 = "?q\<lparr>ch_buf := [], inflight := None, worker_done := True\<rparr>"
  let ?w2 = "w1\<lparr>backing := forward st (backing w1) (pending p1)\<rparr>"
  have cl: "WriteBackPolicy_Close p1 w1 = Inr (Some (?p2, ?w2))"
    using ww st1 pq p0 by (simp add: WriteBackPolicy_Close_def)
  have "backing ?w2 = forward st (backing w) (writes es)"
    using fw p0 by (simp add: pending_def)
  moreover have "pending ?p2 = []" "worker_done ?p2" by (simp_all add: pending_def)
  moreover have "\<forall>w' k v. WriteBackPolicy_OnWrite ?p2 w' k v = Inl SendOnClosedChannel"
    by (simp add: WriteBackPolicy_OnWrite_def)
  ultimately show ?thesis using run cl by blast
qed

theorem write_back_close_flushes_witness:
  "NewWriteBackPolicy log_store 2
     = Inr \<lparr>wb_store = log_store, ch_buf = [], ch_cap = 2, ch_closed = False,
            inflight = None, worker_done = False\<rparr>
   \<and> int (length (writes [Write ''a'' (AnyInt 1), Work, Write ''b'' (AnyInt 2)])) \<le> 2
   \<and> (\<exists>p1 w1 p2 w2.
        wb_run [Write ''a'' (AnyInt 1), Work, Write ''b'' (AnyInt 2)]
          \<lparr>wb_store = log_store, ch_buf = [], ch_cap = 2, ch_closed = False,
           inflight = None, worker_done = False\<rparr> (env0 []) = Inr (p1, w1)
      \<and> WriteBackPolicy_Close p1 w1 = Inr (Some (p2, w2))
      \<and> backing w2 = [(''a'', AnyInt 1), (''b'', AnyInt 2)]
      \<and> pending p2 = [] \<and> worker_done p2
      \<and> (\<forall>w' k v. WriteBackPolicy_OnWrite p2 w' k v = Inl SendOnClosedChannel))"
proof -
  have new: "NewWriteBackPolicy log_store 2
     = Inr \<lparr>wb_store = log_store, ch_buf = [], ch_cap = 2, ch_closed = False,
            inflight = None, worker_done = False\<rparr>"
    by (simp add: NewWriteBackPolicy_def)
  have fits: "int (length (writes [Write ''a'' (AnyInt 1), Work, Write ''b'' (AnyInt 2)])) \<le> 2"
    by simp
  have fw: "forward log_store (backing (env0 []))
              (writes [Write ''a'' (AnyInt 1), Work, Write ''b'' (AnyInt 2)])
            = [(''a'', AnyInt 1), (''b'', AnyInt 2)]"
    by (simp add: log_store_def env0_def)
  show ?thesis
    using write_back_close_flushes [OF new fits, of "env0 []"] new fits
    unfolding fw by simp
qed

section \<open>Properties of the copy-on-write store\<close>

lemma cow_delete_map: "(\<lambda>k'. if k' \<noteq> k then m k' else None) = m(k := None)"
  by (rule ext) simp

lemma store_run_size:
  "store_size s = map_len (store_data s) \<Longrightarrow>
   store_size (store_run ops s) = map_len (store_data (store_run ops s))"
  by (induction ops s rule: store_run.induct)
     (simp_all add: cowStore_Put_def cowStore_Delete_def Let_def)

text \<open>
  Claim C10. After every sequence of Put and Delete on the copy-on-write store, Size()
  is the number of keys of the published snapshot. Put of a key that is present leaves
  the size (and the key set) unchanged, and Delete of a key that is absent leaves the
  snapshot and the size unchanged.
\<close>

theorem cow_size_counts_keys:
  "cowStore_Size (store_run ops NewCOWStore)
     = int (card (dom (store_data (store_run ops NewCOWStore))))
   \<and> (k \<in> dom (store_data (store_run ops NewCOWStore)) \<longrightarrow>
        cowStore_Size (cowStore_Put k ent (store_run ops NewCOWStore))
          = cowStore_Size (store_run ops NewCOWStore)
        \<and> dom (store_data (cowStore_Put k ent (store_run ops NewCOWStore)))
          = dom (store_data (store_run ops NewCOWStore)))
   \<and> (k \<notin> dom (store_data (store_run ops NewCOWStore)) \<longrightarrow>
        store_data (cowStore_Delete k (store_run ops NewCOWStore))
          = store_data (store_run ops NewCOWStore)
        \<and> cowStore_Size (cowStore_Delete k (store_run ops NewCOWStore))
          = cowStore_Size (store_run ops NewCOWStore))"
proof -
  let ?s = "store_run ops NewCOWStore"
  have sz: "store_size ?s = map_len (store_data ?s)"
    by (rule store_run_size) (simp add: NewCOWStore_def map_len_def)
  have a: "cowStore_Size ?s = int (card (dom (store_data ?s)))"
    using sz by (simp add: cowStore_Size_def map_len_def)
  have b: "cowStore_Size (cowStore_Put k ent ?s) = cowStore_Size ?s
        \<and> dom (store_data (cowStore_Put k ent ?s)) = dom (store_data ?s)"
    if "k \<in> dom (store_data ?s)"
    using that sz by (auto simp: cowStore_Size_def cowStore_Put_def map_len_def Let_def insert_absorb)
  have c: "store_data (cowStore_Delete k ?s) = store_data ?s
        \<and> cowStore_Size (cowStore_Delete k ?s) = cowStore_Size ?s"
    if "k \<notin> dom (store_data ?s)"
  proof -
    from that have "(store_data ?s)(k := None) = store_data ?s" by (auto simp: fun_upd_idem_iff)
    then show ?thesis using sz
      by (simp add: cowStore_Size_def cowStore_Delete_def Let_def cow_delete_map)
  qed
  show ?thesis using a b c by blast
qed

theorem cow_size_counts_keys_witness:
  "''b'' \<in> dom (store_data store_ab)
   \<and> ''a'' \<notin> dom (store_data store_ab)
   \<and> cowStore_Size store_ab = 1
   \<and> cowStore_Size (cowStore_Put ''b'' (ent_of ''b'' (AnyInt 3)) store_ab) = 1
   \<and> cowStore_Size (cowStore_Delete ''a'' store_ab) = 1
   \<and> store_data (cowStore_Delete ''a'' store_ab) = store_data store_ab"
proof -
  have d: "dom (store_data store_ab) = {''b''}"
    by (simp add: store_ab_def cowStore_Put_def cowStore_Delete_def NewCOWStore_def Let_def
        cow_delete_map)
  have b: "''b'' \<in> dom (store_data store_ab)" and a: "''a'' \<notin> dom (store_data store_ab)"
    using d by simp_all
  show ?thesis
    using cow_size_counts_keys [of "[StorePut ''a'' (ent_of ''a'' (AnyInt 1)), StorePut ''b'' (ent_of ''b'' (AnyInt 2)),
                StoreDelete ''a'']" "''b''" "ent_of ''b'' (AnyInt 3)"]
      cow_size_counts_keys [of "[StorePut ''a'' (ent_of ''a'' (AnyInt 1)), StorePut ''b'' (ent_of ''b'' (AnyInt 2)),
                StoreDelete ''a'']" "''a''" "ent_of ''b'' (AnyInt 3)"]
      a b d
    unfolding store_ab_def [symmetric] by simp
qed

section \<open>Evaluating the cache on concrete runs\<close>

lemmas facade_defs = ShardedCache_Put_def ShardedCache_PutWithTTL_def ShardedCache_Get_def
  Get_miss_def ShardedCache_Remove_def Select_def cowStore_Size_def cowStore_Get_def
  cowStore_Put_def cowStore_Delete_def map_len_def Policy_Evict_def Policy_OnPut_def
  Policy_OnGet_def Policy_Remove_def CacheEngine_OnWrite_def CacheEngine_OnRead_def
  CacheEngine_IsExpired_def CacheEngine_Load_def time_Now_def time_IsZero_def
  metric_Hit_def metric_Miss_def metric_Eviction_def metric_Expire_def

lemmas lru_defs = lru_Evict_def lru_OnGet_def lru_OnPut_def newLRU_def lru_moveToFront_def
  lru_addFront_def lru_remove_def lru_Remove_def

text \<open>
  Claim C1 says that TTL(key) is -2 for a key that is absent. The code tests
  \<open>!ok || ent.ExpireAt.IsZero()\<close> first and answers -1 for both: on a new cache with
  one shard, TTL of a key that was never stored is -1.
\<close>

theorem TTL_of_absent_key_is_minus_one:
  "NewShardedCache 1 10 ''LRU'' eng0
     = Inr \<lparr>shards = [NewShard (LRUPolicy newLRU)], engine = eng0, capacity = 10\<rparr>
   \<and> cowStore_Get (Store (NewShard (LRUPolicy newLRU))) ''missing'' = None
   \<and> ShardedCache_TTL \<lparr>shards = [NewShard (LRUPolicy newLRU)], engine = eng0, capacity = 10\<rparr>
        (env0 []) ''missing'' = Inr (- 1, env0 [])"
  by (simp add: NewShardedCache_def NewEvictionPolicy_def ShardedCache_TTL_def Select_def
      NewShard_def NewCOWStore_def cowStore_Get_def)

text \<open>
  Claim C4 says that the LFU policy's Evict returns the empty string only when no key
  is tracked. After OnPut a, OnGet a, OnPut b the first Evict returns b (whichever key
  the map iteration starts at) and leaves minFreq at 1 with an empty bucket; the second
  Evict returns the empty string although a is still tracked, with frequency 2.
\<close>

theorem lfu_Evict_empty_while_tracked:
  "(let l = lfu_OnPut ''b'' (lfu_OnGet ''a'' (lfu_OnPut ''a'' newLFU));
        r1 = lfu_Evict i l;
        r2 = lfu_Evict j (snd r1)
    in fst r1 = ''b'' \<and> fst r2 = [] \<and> lfu_nodes (snd r2) ''a'' = Some \<lparr>lfu_key = ''a'', freq = 2\<rparr>
       \<and> minFreq (snd r2) = 1)"
  by (simp add: lfu_OnPut_def lfu_OnGet_def lfu_Evict_def newLFU_def bucket_add_def
      bucket_delete_def bucket_len_def Let_def)

text \<open>
  Claim C8 says that after any insert the shard's store holds at most
  capacity / shardCount entries. With one shard, capacity 2 and the LRU policy: after
  Put a, Put b, Get a, Get a the list's head node a carries a stale predecessor pointer
  (\<open>addFront\<close> never resets \<open>prev\<close>) and the second Get has tied the tail node b to
  itself; Put c evicts b, and Put d is handed b again by Evict, deletes nothing and
  inserts: the shard holds a, c and d.
\<close>

theorem lru_cache_exceeds_capacity:
  "shard_sizes (cache_run [OpPut ''a'' (AnyInt 1), OpPut ''b'' (AnyInt 2), OpGet ''a'', OpGet ''a'',
       OpPut ''c'' (AnyInt 3), OpPut ''d'' (AnyInt 4)]
     \<lparr>shards = [NewShard (LRUPolicy newLRU)], engine = eng0, capacity = 2\<rparr> (env0 [])) = [3]
   \<and> (2::int) sdiv int (length [NewShard (LRUPolicy newLRU)]) = 2"
  by (simp add: shard_sizes_def facade_defs lru_defs NewShard_def NewCOWStore_def eng0_def env0_def
      Let_def cow_delete_map)

section \<open>Put followed by Get\<close>

lemma Select_bound: "Select k shs = Inr i \<Longrightarrow> i < length shs"
  by (auto simp: Select_def split: if_splits)

lemma Select_update [simp]: "Select k (shs[i := sh]) = Select k shs"
  by (simp add: Select_def)

lemma Policy_Evict_clock:
  "Policy_Evict p w = (k, p', w') \<Longrightarrow> clock w' = clock w \<and> backing w' = backing w"
  by (auto simp: Policy_Evict_def split: Policy.splits prod.splits)

lemma WritePolicy_OnWrite_clock:
  "WritePolicy_OnWrite p w k v = Inr (p', w') \<Longrightarrow> clock w' = clock w"
  by (auto simp: WritePolicy_OnWrite_def WriteThroughPolicy_OnWrite_def WriteBackPolicy_OnWrite_def
      Let_def split: WritePolicy.splits sum.splits if_splits)

lemma OnWrite_result:
  assumes "CacheEngine_OnWrite e w ent = Inr (ent', e', w')"
  shows "Key ent' = Key ent \<and> Value ent' = Value ent \<and> clock w' = clock w
     \<and> Expiration e' = Expiration e \<and> RefreshHook e' = RefreshHook e \<and> Loader e' = Loader e
     \<and> (case Expiration e of
          None \<Rightarrow> ExpireAt ent' = ExpireAt ent
        | Some s \<Rightarrow> ExpireAt ent' = (if ExpireAt ent = 0 then clock w (ticks w) + sint (TTL s) else ExpireAt ent))
     \<and> (ExpireAt ent' \<noteq> 0 \<longrightarrow> ticks w' = Suc (ticks w))"
  using assms
  by (auto simp: CacheEngine_OnWrite_def time_Now_def Let_def time_IsZero_def time_Add_def
      ExpireAfterAccess_OnWrite_def
      split: option.splits sum.splits if_splits prod.splits dest: WritePolicy_OnWrite_clock)

lemma Put_stores:
  assumes "ShardedCache_Put c w k v = Inr (c1, w1)"
  shows "\<exists>i ent. Select k (shards c1) = Inr i \<and> cowStore_Get (Store (shards c1 ! i)) k = Some ent
      \<and> Value ent = v \<and> Key ent = k \<and> clock w1 = clock w
      \<and> Expiration (engine c1) = Expiration (engine c)
      \<and> RefreshHook (engine c1) = RefreshHook (engine c)
      \<and> (case Expiration (engine c) of
           None \<Rightarrow> ExpireAt ent = 0
         | Some s \<Rightarrow> ExpireAt ent = 0 \<or> ExpireAt ent = clock w (ticks w1 - 1) + sint (TTL s))"
proof -
  from assms obtain i where sel: "Select k (shards c) = Inr i"
    by (auto simp: ShardedCache_Put_def ShardedCache_PutWithTTL_def split: sum.splits)
  then have il: "i < length (shards c)" by (rule Select_bound)
  define sh where "sh = shards c ! i"
  define ev where "ev = (if cowStore_Size (Store sh) \<ge> capacity c sdiv int (length (shards c))
                  then (case Policy_Evict (Eviction sh) w of
                          (evicted, pol, w') \<Rightarrow>
                            if evicted \<noteq> []
                            then (sh\<lparr>Eviction := pol, Store := cowStore_Delete evicted (Store sh)\<rparr>,
                                  metric_Eviction (engine c), w')
                            else (sh\<lparr>Eviction := pol\<rparr>, engine c, w'))
                  else (sh, engine c, w))"
  obtain sh1 e1 wa where ev: "ev = (sh1, e1, wa)" by (cases ev)
  have e1: "Expiration e1 = Expiration (engine c)" "RefreshHook e1 = RefreshHook (engine c)"
    and wa: "clock wa = clock w"
    using ev unfolding ev_def
    by (auto simp: metric_Eviction_def split: if_splits prod.splits dest: Policy_Evict_clock)
  define now where "now = clock wa (ticks wa)"
  define w2 where "w2 = wa\<lparr>ticks := Suc (ticks wa)\<rparr>"
  define ent1 where "ent1 = \<lparr>Key = k, Value = v, CreatedAt = now, LastAccessedAt = now, ExpireAt = 0\<rparr>"
  from assms sel ev obtain ent2 e2 where
    ow: "CacheEngine_OnWrite e1 w2 ent1 = Inr (ent2, e2, w1)"
    and c1: "c1 = c\<lparr>shards := (shards c)[i := (sh1\<lparr>Store := cowStore_Put k ent2 (Store sh1)\<rparr>)\<lparr>Eviction := Policy_OnPut k (Eviction sh1)\<rparr>],
                   engine := e2\<rparr>"
    unfolding ShardedCache_Put_def ShardedCache_PutWithTTL_def
    by (auto simp: Let_def time_Now_def sh_def[symmetric] ev_def[symmetric] now_def w2_def ent1_def
        split: sum.splits prod.splits)
  note r = OnWrite_result[OF ow]
  have tk: "ExpireAt ent2 \<noteq> 0 \<Longrightarrow> ticks w1 - 1 = ticks w2" using r by simp
  have "Select k (shards c1) = Inr i" using sel c1 by simp
  moreover have "cowStore_Get (Store (shards c1 ! i)) k = Some ent2"
    using c1 il by (simp add: cowStore_Get_def cowStore_Put_def Let_def)
  moreover have "Value ent2 = v" "Key ent2 = k" using r by (simp_all add: ent1_def)
  moreover have "clock w1 = clock w" using r wa by (simp add: w2_def)
  moreover have "Expiration (engine c1) = Expiration (engine c)"
    "RefreshHook (engine c1) = RefreshHook (engine c)" using r e1 c1 by simp_all
  moreover have "(case Expiration (engine c) of
           None \<Rightarrow> ExpireAt ent2 = 0
         | Some s \<Rightarrow> ExpireAt ent2 = 0 \<or> ExpireAt ent2 = clock w (ticks w1 - 1) + sint (TTL s))"
    using r e1 tk wa by (auto simp: ent1_def w2_def split: option.splits)
  ultimately show ?thesis by blast
qed

text \<open>
  Claim C6, as amended. Put(k, v) that returns (it panics only with no shard, or when it
  forwards to a write-back policy that was closed), followed by Get(k) on the same
  cache, returns v with no error, provided that the entry has not expired when Get checks
  it: with the expire-after-access strategy configured, Get's clock reading is not after
  the reading of Put's write hook plus the strategy's TTL (the hook's reading is the last
  one Put takes from the environment whenever the hook gave the entry an expiry; an
  entry without expiry never expires); and provided that the refresh hook, if one is
  configured, leaves the value of the entry alone.
\<close>

theorem Put_then_Get_returns_value:
  assumes put: "ShardedCache_Put c w k v = Inr (c1, w1)"
    and fresh: "\<forall>s. Expiration (engine c) = Some s \<longrightarrow>
                  clock w (ticks w1) \<le> clock w (ticks w1 - 1) + sint (TTL s)"
    and hook: "\<forall>h ent. RefreshHook (engine c) = Some h \<longrightarrow> Value (h k ent) = Value ent"
  shows "\<exists>c2 w2. ShardedCache_Get c1 w1 k = Inr ((v, None), c2, w2)"
proof -
  from Put_stores[OF put] obtain i ent where
    sel: "Select k (shards c1) = Inr i" and get: "cowStore_Get (Store (shards c1 ! i)) k = Some ent"
    and val: "Value ent = v" and clk: "clock w1 = clock w"
    and ex: "Expiration (engine c1) = Expiration (engine c)"
    and rh: "RefreshHook (engine c1) = RefreshHook (engine c)"
    and at: "(case Expiration (engine c) of
           None \<Rightarrow> ExpireAt ent = 0
         | Some s \<Rightarrow> ExpireAt ent = 0 \<or> ExpireAt ent = clock w (ticks w1 - 1) + sint (TTL s))"
    by blast
  have ne: "fst (CacheEngine_IsExpired (engine c1) w1 ent) = False"
    using at fresh ex clk
    by (auto simp: CacheEngine_IsExpired_def time_Now_def ExpireAfterAccess_IsExpired_def
        time_IsZero_def time_After_def split: option.splits)
  obtain wb where ie: "CacheEngine_IsExpired (engine c1) w1 ent = (False, wb)"
    using ne by (cases "CacheEngine_IsExpired (engine c1) w1 ent") auto
  obtain ent' e' w' where rd: "CacheEngine_OnRead (metric_Hit (engine c1)) wb k ent = (ent', e', w')"
    by (cases "CacheEngine_OnRead (metric_Hit (engine c1)) wb k ent") auto
  have "Value ent' = v"
    using rd val hook rh ex
    by (auto simp: CacheEngine_OnRead_def time_Now_def Let_def metric_Hit_def
        ExpireAfterAccess_OnAccess_def split: option.splits)
  then show ?thesis
    using sel get ie rd by (simp add: ShardedCache_Get_def Let_def)
qed

text \<open>
  The claim as stated, for every cache: it fails when the entry expires between the two
  calls. With a sliding TTL of 1 ns and a clock that advances by 10 ns at every reading,
  and with a sliding TTL of -1 ns and a clock that stands still, the Get that follows the
  Put finds the entry expired, removes it, asks the loader, which has nothing, and
  returns nil.
\<close>

theorem Put_then_Get_counterexample:
  "put_get (sliding_cache 1) (env_step 10) ''k'' (AnyInt 7) = Inr (AnyNil, None)
   \<and> put_get (sliding_cache (- 1)) (env_step 0) ''k'' (AnyInt 7) = Inr (AnyNil, None)"
  by (simp add: put_get_def sliding_cache_def env_step_def facade_defs lru_defs NewShard_def
      NewCOWStore_def eng0_def Let_def cow_delete_map ExpireAfterAccess_OnWrite_def
      ExpireAfterAccess_IsExpired_def time_Add_def time_After_def log_store_def)

theorem Put_then_Get_returns_value_witness:
  "(\<exists>c1 w1. ShardedCache_Put (sliding_cache 5000000000) (env_step 10) ''k'' (AnyInt 7) = Inr (c1, w1)
      \<and> ticks w1 = 2
      \<and> (\<exists>c2 w2. ShardedCache_Get c1 w1 ''k'' = Inr ((AnyInt 7, None), c2, w2)))
   \<and> clock (env_step 10) 2 \<le> clock (env_step 10) 1 + sint (5000000000 :: Duration)
   \<and> RefreshHook (engine (sliding_cache 5000000000)) = None"
proof -
  obtain c1 w1 where
    put: "ShardedCache_Put (sliding_cache 5000000000) (env_step 10) ''k'' (AnyInt 7) = Inr (c1, w1)"
    and tk: "ticks w1 = 2"
    by (simp add: sliding_cache_def env_step_def facade_defs lru_defs NewShard_def
      NewCOWStore_def eng0_def Let_def cow_delete_map ExpireAfterAccess_OnWrite_def time_Add_def)
  have fr: "clock (env_step 10) 2 \<le> clock (env_step 10) 1 + sint (5000000000 :: Duration)"
    by (simp add: env_step_def)
  have ex: "Expiration (engine (sliding_cache 5000000000)) = Some \<lparr>TTL = 5000000000\<rparr>"
    and rh: "RefreshHook (engine (sliding_cache 5000000000)) = None"
    by (simp_all add: sliding_cache_def eng0_def)
  have "\<exists>c2 w2. ShardedCache_Get c1 w1 ''k'' = Inr ((AnyInt 7, None), c2, w2)"
    using Put_then_Get_returns_value [OF put] fr ex rh tk by simp
  then show ?thesis using put tk fr rh by blast
qed

section \<open>Properties of the miss path of Get\<close>

text \<open>
  Claim C7. On a cache miss (the key is not in its shard's store) Get calls the loader.
  If the loader returns an error, Get returns that error with a nil value; if it returns
  a nil value and no error, Get returns (nil, nil); in both cases the shards, the
  capacity and the engine's configuration are as before (the engine has counted one
  miss, and the backing store is as the loader left it). Only when the loader returns a
  value that is not nil, and no error, does Get store it with Put and return it.
\<close>

theorem Get_miss_loader_outcomes:
  assumes sel: "Select k (shards c) = Inr i"
    and absent: "cowStore_Get (Store (shards c ! i)) k = None"
    and ld: "Loader (engine c) = Some l"
    and res: "Loader_Load l (backing w) k = ((val, err), b')"
  shows "ShardedCache_Get c w k =
     (if err \<noteq> None \<or> val = AnyNil
      then Inr ((AnyNil, err), c\<lparr>engine := metric_Miss (engine c)\<rparr>, w\<lparr>backing := b'\<rparr>)
      else (case ShardedCache_Put (c\<lparr>engine := metric_Miss (engine c)\<rparr>) (w\<lparr>backing := b'\<rparr>) k val of
              Inl p \<Rightarrow> Inl p
            | Inr (c2, w2) \<Rightarrow> Inr ((val, None), c2, w2)))"
  using assms
  by (simp add: ShardedCache_Get_def Get_miss_def CacheEngine_Load_def metric_Miss_def Let_def)

lemma Get_expired_falls_through:
  assumes "Select k (shards c) = Inr i"
    and "cowStore_Get (Store (shards c ! i)) k = Some ent"
    and "CacheEngine_IsExpired (engine c) w ent = (True, w1)"
    and "ShardedCache_Remove (c\<lparr>engine := metric_Expire (engine c)\<rparr>) k = Inr c1"
  shows "ShardedCache_Get c w k = Get_miss c1 w1 k
     \<and> cowStore_Get (Store (shards c1 ! i)) k = None"
  using assms
  by (auto simp: ShardedCache_Get_def Let_def ShardedCache_Remove_def cowStore_Get_def
      cowStore_Delete_def dest: Select_bound)

theorem Get_miss_loader_outcomes_witness:
  "Select ''bad'' (shards loading_cache) = Inr 0
   \<and> cowStore_Get (Store (shards loading_cache ! 0)) ''bad'' = None
   \<and> Loader (engine loading_cache) = Some test_loader
   \<and> Loader_Load test_loader () ''bad'' = ((AnyStr ''partial'', Some ''boom''), ())
   \<and> ShardedCache_Get loading_cache (env0 ()) ''bad''
       = Inr ((AnyNil, Some ''boom''),
              loading_cache\<lparr>engine := metric_Miss (engine loading_cache)\<rparr>, env0 ())
   \<and> ShardedCache_Get loading_cache (env0 ()) ''none''
       = Inr ((AnyNil, None),
              loading_cache\<lparr>engine := metric_Miss (engine loading_cache)\<rparr>, env0 ())
   \<and> (\<exists>c2 w2. ShardedCache_Get loading_cache (env0 ()) ''ok'' = Inr ((AnyStr ''v'', None), c2, w2)
        \<and> map_option Value (cowStore_Get (Store (shards c2 ! 0)) ''ok'') = Some (AnyStr ''v''))"
proof -
  have s: "Select k (shards loading_cache) = Inr 0" for k
    by (simp add: Select_def loading_cache_def)
  have a: "cowStore_Get (Store (shards loading_cache ! 0)) k = None" for k
    by (simp add: loading_cache_def NewShard_def NewCOWStore_def cowStore_Get_def)
  have l: "Loader (engine loading_cache) = Some test_loader"
    by (simp add: loading_cache_def)
  have r1: "Loader_Load test_loader (backing (env0 ())) ''bad'' = ((AnyStr ''partial'', Some ''boom''), ())"
    and r2: "Loader_Load test_loader (backing (env0 ())) ''none'' = ((AnyNil, None), ())"
    and r3: "Loader_Load test_loader (backing (env0 ())) ''ok'' = ((AnyStr ''v'', None), ())"
    by (simp_all add: test_loader_def)
  have w: "(env0 ())\<lparr>backing := ()\<rparr> = env0 ()" by simp
  note g1 = Get_miss_loader_outcomes [OF s a l r1, unfolded w]
  note g2 = Get_miss_loader_outcomes [OF s a l r2, unfolded w]
  note g3 = Get_miss_loader_outcomes [OF s a l r3, unfolded w]
  have p: "\<exists>c2 w2. ShardedCache_Put (loading_cache\<lparr>engine := metric_Miss (engine loading_cache)\<rparr>)
              (env0 ()) ''ok'' (AnyStr ''v'') = Inr (c2, w2)
         \<and> map_option Value (cowStore_Get (Store (shards c2 ! 0)) ''ok'') = Some (AnyStr ''v'')"
    by (simp add: loading_cache_def env0_def facade_defs NewShard_def NewCOWStore_def Let_def
        fifo_OnPut_def newFIFO_def)
  show ?thesis using s a l r1 g1 g2 g3 p by auto
qed

section \<open>The LRU list keeps the recency order\<close>

lemma path_append:
  "path f h s (ys @ zs) e = (\<exists>m. path f h s ys m \<and> path f h m zs e)"
  by (induction ys arbitrary: s) auto

lemma path_cong:
  "(\<And>a. a \<in> set as \<Longrightarrow> f (h' a) = f (h a)) \<Longrightarrow> path f h' s as e = path f h s as e"
  by (induction as arbitrary: s) auto

lemma path_snoc: "path f h s (ys @ [a]) e = (path f h s ys (Some a) \<and> f (h a) = e)"
  by (auto simp: path_append)

lemma path_end_unique: "path f h s as e \<Longrightarrow> path f h s as e' \<Longrightarrow> e = e'"
  by (induction as arbitrary: s) auto

lemma lru_addFront_list:
  assumes inv: "lru_list l as st" and n: "n \<notin> set as"
    and st': "st' \<or> n_prev (lru_heap l n) = None"
  shows "lru_list (lru_addFront n l) (n # as) st'"
    and "lru_nodes (lru_addFront n l) = lru_nodes l"
    and "lru_fresh (lru_addFront n l) = lru_fresh l"
    and "\<And>a. n_key (lru_heap (lru_addFront n l) a) = n_key (lru_heap l a)"
proof -
  let ?h = "lru_heap l"
  from inv obtain e where d: "distinct as" and fw: "path n_next ?h (lru_head l) as None"
    and bw: "path n_prev ?h (lru_tail l) (rev as) e" and e: "(st \<and> as \<noteq> []) \<or> e = None"
    by (auto simp: lru_list_def)
  show "lru_nodes (lru_addFront n l) = lru_nodes l" "lru_fresh (lru_addFront n l) = lru_fresh l"
    by (simp_all add: lru_addFront_def Let_def split: option.splits)
  show "\<And>a. n_key (lru_heap (lru_addFront n l) a) = n_key (lru_heap l a)"
    by (simp add: lru_addFront_def Let_def split: option.splits)
  show "lru_list (lru_addFront n l) (n # as) st'"
  proof (cases as)
    case Nil
    then have hd: "lru_head l = None" and tl: "lru_tail l = None" using fw bw e by auto
    show ?thesis using Nil hd tl st'
      by (auto simp: lru_list_def lru_addFront_def Let_def)
  next
    case (Cons a as')
    then have hd: "lru_head l = Some a" using fw by simp
    have an: "a \<noteq> n" using n Cons by auto
    from bw Cons have tl: "lru_tail l \<noteq> None" by (cases "rev as") auto
    let ?h1 = "?h(n := (?h n)\<lparr>n_next := Some a\<rparr>)"
    let ?h2 = "?h1(a := (?h1 a)\<lparr>n_prev := Some n\<rparr>)"
    have l': "lru_addFront n l = l\<lparr>lru_heap := ?h2, lru_head := Some n\<rparr>"
      using hd tl by (auto simp: lru_addFront_def Let_def)
    have f1: "path n_next ?h2 (Some a) as None"
      using fw hd n an by (subst path_cong[where h = ?h]) auto
    have nx: "n_next (?h2 n) = Some a" using an by simp
    from bw Cons have bw': "path n_prev ?h (lru_tail l) (rev as') (Some a)"
      by (auto simp: path_snoc)
    have b1: "path n_prev ?h2 (lru_tail l) (rev as') (Some a)"
      using bw' n d Cons by (subst path_cong[where h = ?h]) auto
    have pa: "n_prev (?h2 a) = Some n" by simp
    have pn: "n_prev (?h2 n) = n_prev (?h n)" using an by simp
    have "path n_prev ?h2 (lru_tail l) (rev (n # as)) (n_prev (?h n))"
      using b1 pa pn Cons by (auto simp: path_snoc path_append)
    then show ?thesis
      using f1 nx d n st' unfolding l' lru_list_def by auto
  qed
qed

lemma lru_remove_list:
  assumes inv: "lru_list l (ys @ n # zs) st" and g: "ys = [] \<longrightarrow> \<not> st"
  shows "lru_list (lru_remove n l) (ys @ zs) (st \<and> ys \<noteq> [])"
    and "lru_nodes (lru_remove n l) = lru_nodes l"
    and "lru_fresh (lru_remove n l) = lru_fresh l"
    and "\<And>a. n_key (lru_heap (lru_remove n l) a) = n_key (lru_heap l a)"
    and "n_prev (lru_heap (lru_remove n l) n) = (if ys = [] then None else Some (last ys))"
proof -
  let ?h = "lru_heap l"
  from inv obtain e where d: "distinct (ys @ n # zs)"
    and fw: "path n_next ?h (lru_head l) (ys @ n # zs) None"
    and bw: "path n_prev ?h (lru_tail l) (rev zs @ n # rev ys) e"
    and e: "st \<or> e = None"
    by (auto simp: lru_list_def)
  from fw obtain fy: "path n_next ?h (lru_head l) ys (Some n)"
    and fz: "path n_next ?h (n_next (?h n)) zs None"
    by (auto simp: path_append)
  from bw obtain bz: "path n_prev ?h (lru_tail l) (rev zs) (Some n)"
    and bys: "path n_prev ?h (n_prev (?h n)) (rev ys) e"
    by (auto simp: path_append)
  show "lru_nodes (lru_remove n l) = lru_nodes l" "lru_fresh (lru_remove n l) = lru_fresh l"
    by (simp_all add: lru_remove_def Let_def split: option.splits)
  show "\<And>a. n_key (lru_heap (lru_remove n l) a) = n_key (lru_heap l a)"
    by (simp add: lru_remove_def Let_def split: option.splits)
  have main: "lru_list (lru_remove n l) (ys @ zs) (st \<and> ys \<noteq> [])
     \<and> n_prev (lru_heap (lru_remove n l) n) = (if ys = [] then None else Some (last ys))"
  proof (cases ys rule: rev_cases)
    case Nil
    with e g bys have en: "n_prev (?h n) = None" by auto
    from Nil fy have hd: "lru_head l = Some n" by simp
    show ?thesis
    proof (cases zs)
      case zn: Nil
      with fz have nn: "n_next (?h n) = None" by simp
      have l': "lru_remove n l = l\<lparr>lru_head := None, lru_tail := None\<rparr>"
        using en nn by (simp add: lru_remove_def Let_def)
      show ?thesis using Nil zn en unfolding l' lru_list_def by simp
    next
      case (Cons x zs')
      with fz have nn: "n_next (?h n) = Some x" by simp
      let ?h2 = "?h(x := (?h x)\<lparr>n_prev := None\<rparr>)"
      have xn: "x \<noteq> n" using d Cons by auto
      have l': "lru_remove n l = l\<lparr>lru_head := Some x, lru_heap := ?h2\<rparr>"
        using en nn by (simp add: lru_remove_def Let_def)
      have f: "path n_next ?h2 (Some x) zs None"
        using fz nn by (subst path_cong[where h = ?h]) auto
      from bz Cons have "path n_prev ?h (lru_tail l) (rev zs') (Some x)"
        by (auto simp: path_snoc)
      then have "path n_prev ?h2 (lru_tail l) (rev zs') (Some x)"
        using d Cons by (subst path_cong[where h = ?h]) auto
      then have b: "path n_prev ?h2 (lru_tail l) (rev zs) None"
        using Cons by (auto simp: path_snoc)
      show ?thesis using Nil f b d en xn unfolding l' lru_list_def by auto
    qed
  next
    case (snoc ys' p)
    with bys have pn: "n_prev (?h n) = Some p" by simp
    have pne: "p \<noteq> n" using d snoc by auto
    from bys snoc have bys': "path n_prev ?h (n_prev (?h p)) (rev ys') e" by simp
    from fy snoc have fy': "path n_next ?h (lru_head l) ys' (Some p)"
      by (auto simp: path_snoc)
    show ?thesis
    proof (cases zs)
      case zn: Nil
      with fz have nn: "n_next (?h n) = None" by simp
      let ?h1 = "?h(p := (?h p)\<lparr>n_next := None\<rparr>)"
      have l': "lru_remove n l = l\<lparr>lru_heap := ?h1, lru_tail := Some p\<rparr>"
        using pn nn pne by (simp add: lru_remove_def Let_def)
      have "path n_next ?h1 (lru_head l) ys' (Some p)"
        using fy' d snoc by (subst path_cong[where h = ?h]) auto
      then have f: "path n_next ?h1 (lru_head l) ys None"
        using snoc by (auto simp: path_snoc)
      have "path n_prev ?h1 (n_prev (?h p)) (rev ys') e"
        using bys' by (subst path_cong[where h = ?h]) auto
      then have b: "path n_prev ?h1 (Some p) (rev ys) e" using snoc by simp
      show ?thesis using snoc zn f b d e pn pne unfolding l' lru_list_def by auto
    next
      case (Cons x zs')
      with fz have nn: "n_next (?h n) = Some x" by simp
      have xn: "x \<noteq> n" and xp: "x \<noteq> p" using d Cons snoc by auto
      let ?h1 = "?h(p := (?h p)\<lparr>n_next := Some x\<rparr>)"
      let ?h2 = "?h1(x := (?h1 x)\<lparr>n_prev := Some p\<rparr>)"
      have l': "lru_remove n l = l\<lparr>lru_heap := ?h2\<rparr>"
        using pn nn pne xn xp by (simp add: lru_remove_def Let_def)
      have "path n_next ?h2 (lru_head l) ys' (Some p)"
        using fy' d snoc by (subst path_cong[where h = ?h]) auto
      moreover have "n_next (?h2 p) = Some x" using xp by simp
      moreover have "path n_next ?h2 (Some x) zs None"
        using fz nn d snoc Cons by (subst path_cong[where h = ?h]) auto
      ultimately have f: "path n_next ?h2 (lru_head l) (ys @ zs) None"
        using snoc by (auto simp: path_append)
      from bz Cons have "path n_prev ?h (lru_tail l) (rev zs') (Some x)"
        by (auto simp: path_snoc)
      then have "path n_prev ?h2 (lru_tail l) (rev zs') (Some x)"
        using d Cons snoc by (subst path_cong[where h = ?h]) auto
      moreover have "n_prev (?h2 x) = Some p" by simp
      moreover have "path n_prev ?h2 (n_prev (?h2 p)) (rev ys') e"
        using bys' d snoc Cons xp by (subst path_cong[where h = ?h]) auto
      ultimately have b: "path n_prev ?h2 (lru_tail l) (rev (ys @ zs)) e"
        using snoc Cons by (auto simp: path_append)
      show ?thesis using snoc f b d e pn pne xn unfolding l' lru_list_def by auto
    qed
  qed
  then show "lru_list (lru_remove n l) (ys @ zs) (st \<and> ys \<noteq> [])"
    and "n_prev (lru_heap (lru_remove n l) n) = (if ys = [] then None else Some (last ys))"
    by simp_all
qed

lemma lru_list_cong:
  assumes "lru_list l as st" and "\<And>a. a \<in> set as \<Longrightarrow> lru_heap l' a = lru_heap l a"
    and "lru_head l' = lru_head l" and "lru_tail l' = lru_tail l"
  shows "lru_list l' as st"
proof -
  have "path f (lru_heap l') s as e = path f (lru_heap l) s as e" for f s e
    using assms(2) by (intro path_cong) simp
  moreover have "path f (lru_heap l') s (rev as) e = path f (lru_heap l) s (rev as) e" for f s e
    using assms(2) by (intro path_cong) simp
  ultimately show ?thesis using assms(1,3,4) by (simp add: lru_list_def)
qed

lemma lru_list_tail:
  "lru_list l as st \<Longrightarrow> lru_tail l = (if as = [] then None else Some (last as))"
  by (cases as rule: rev_cases) (auto simp: lru_list_def)

lemma lru_index_tracked: "lru_index l as \<Longrightarrow> (k \<in> set (lru_keys l as)) = (lru_nodes l k \<noteq> None)"
  by (auto simp: lru_index_def lru_keys_def)

lemma lru_index_node:
  "lru_index l as \<Longrightarrow> lru_nodes l k = Some n \<Longrightarrow> n \<in> set as \<and> n_key (lru_heap l n) = k"
  by (auto simp: lru_index_def)

lemma keys_split:
  assumes "distinct (lru_keys l (ys @ n # zs))" and "n_key (lru_heap l n) = k"
  shows "lru_keys l (ys @ n # zs) = lru_keys l ys @ k # lru_keys l zs"
    and "remove1 k (lru_keys l (ys @ n # zs)) = lru_keys l (ys @ zs)"
    and "(hd (lru_keys l (ys @ n # zs)) = k) = (ys = [])"
    and "k \<notin> set (lru_keys l (ys @ zs))"
proof -
  show a: "lru_keys l (ys @ n # zs) = lru_keys l ys @ k # lru_keys l zs"
    using assms(2) by (simp add: lru_keys_def)
  have nk: "k \<notin> set (lru_keys l ys)" "k \<notin> set (lru_keys l zs)"
    using assms(1) unfolding a by auto
  show "remove1 k (lru_keys l (ys @ n # zs)) = lru_keys l (ys @ zs)"
    unfolding a using nk by (simp add: remove1_append lru_keys_def)
  show "(hd (lru_keys l (ys @ n # zs)) = k) = (ys = [])"
    unfolding a using nk by (cases ys) (auto simp: lru_keys_def)
  show "k \<notin> set (lru_keys l (ys @ zs))" using nk by (simp add: lru_keys_def)
qed

lemma lru_OnPut_refines:
  assumes li: "lru_list l as st" and ix: "lru_index l as"
    and g: "guard_step (PPut k) (lru_keys l as) st = Some st'"
  shows "\<exists>as'. lru_list (lru_OnPut k l) as' st' \<and> lru_index (lru_OnPut k l) as'
           \<and> recency_step (PPut k) (lru_keys l as) = ([], lru_keys (lru_OnPut k l) as')"
proof (cases "lru_nodes l k")
  case (Some n)
  then have "k \<in> set (lru_keys l as)" using lru_index_tracked[OF ix] by simp
  then show ?thesis using Some li ix g by (auto simp: lru_OnPut_def)
next
  case None
  then have nk: "k \<notin> set (lru_keys l as)" using lru_index_tracked[OF ix] by simp
  with g have st': "st' = False" by simp
  let ?n = "lru_fresh l"
  let ?l2 = "l\<lparr>lru_heap := (lru_heap l)(?n := \<lparr>n_key = k, n_prev = None, n_next = None\<rparr>),
               lru_fresh := Suc ?n, lru_nodes := (lru_nodes l)(k \<mapsto> ?n)\<rparr>"
  have op: "lru_OnPut k l = lru_addFront ?n ?l2"
    using None by (simp add: lru_OnPut_def Let_def)
  have nas: "?n \<notin> set as" using ix by (auto simp: lru_index_def)
  have l2: "lru_list ?l2 as st"
    using nas by (intro lru_list_cong[OF li]) auto
  note af = lru_addFront_list[OF l2 nas, of False]
  have a1: "lru_list (lru_addFront ?n ?l2) (?n # as) False" using af(1) by simp
  have keys: "lru_keys (lru_addFront ?n ?l2) (?n # as) = k # lru_keys l as"
    using af(4) nas by (auto simp: lru_keys_def)
  have "lru_index (lru_addFront ?n ?l2) (?n # as)"
    unfolding lru_index_def keys
    using ix nk nas af(2,3,4) by (auto simp: lru_index_def lru_keys_def image_iff)
  then show ?thesis using a1 keys nk st' op by auto
qed

lemma lru_OnGet_refines:
  assumes li: "lru_list l as st" and ix: "lru_index l as"
    and g: "guard_step (PGet k) (lru_keys l as) st = Some st'"
  shows "\<exists>as'. lru_list (lru_OnGet k l) as' st' \<and> lru_index (lru_OnGet k l) as'
           \<and> recency_step (PGet k) (lru_keys l as) = ([], lru_keys (lru_OnGet k l) as')"
proof (cases "lru_nodes l k")
  case None
  then have "k \<notin> set (lru_keys l as)" using lru_index_tracked[OF ix] by simp
  then show ?thesis using None li ix g by (auto simp: lru_OnGet_def)
next
  case (Some n)
  then have kin: "k \<in> set (lru_keys l as)" using lru_index_tracked[OF ix] by simp
  from lru_index_node[OF ix Some] have nin: "n \<in> set as" and kn: "n_key (lru_heap l n) = k" by auto
  from nin obtain ys zs where as: "as = ys @ n # zs" by (auto simp: in_set_conv_decomp)
  have dk: "distinct (lru_keys l (ys @ n # zs))" using ix as by (simp add: lru_index_def)
  note ks = keys_split[OF dk kn]
  have da: "distinct (ys @ n # zs)" using li as by (simp add: lru_list_def)
  from g kin ks(3) as have gy: "ys = [] \<longrightarrow> \<not> st" and st': "st' = (ys \<noteq> [])"
    by (auto split: if_splits)
  let ?l1 = "lru_remove n l"
  note rm = lru_remove_list[OF li[unfolded as] gy]
  have nn: "n \<notin> set (ys @ zs)" using da by auto
  have pv: "st' \<or> n_prev (lru_heap ?l1 n) = None" using rm(5) st' by auto
  note af = lru_addFront_list[OF rm(1) nn pv]
  have op: "lru_OnGet k l = lru_addFront n ?l1"
    using Some by (simp add: lru_OnGet_def lru_moveToFront_def)
  have keq: "n_key (lru_heap (lru_addFront n ?l1) a) = n_key (lru_heap l a)" for a
    using af(4) rm(4) by simp
  have keys: "lru_keys (lru_addFront n ?l1) (n # ys @ zs) = k # lru_keys l (ys @ zs)"
    using keq kn by (simp add: lru_keys_def)
  have "lru_index (lru_addFront n ?l1) (n # ys @ zs)"
    unfolding lru_index_def keys
    using ix as ks(4) dk keq af(2,3) rm(2,3) by (auto simp: lru_index_def lru_keys_def)
  then show ?thesis using af(1) keys kin ks(2) as op by auto
qed

lemma lru_Remove_refines:
  assumes li: "lru_list l as st" and ix: "lru_index l as"
    and g: "guard_step (PRemove k) (lru_keys l as) st = Some st'"
  shows "\<exists>as'. lru_list (lru_Remove k l) as' st' \<and> lru_index (lru_Remove k l) as'
           \<and> recency_step (PRemove k) (lru_keys l as) = ([], lru_keys (lru_Remove k l) as')"
proof (cases "lru_nodes l k")
  case None
  then have "k \<notin> set (lru_keys l as)" using lru_index_tracked[OF ix] by simp
  then show ?thesis using None li ix g by (auto simp: lru_Remove_def remove1_idem)
next
  case (Some n)
  then have kin: "k \<in> set (lru_keys l as)" using lru_index_tracked[OF ix] by simp
  from lru_index_node[OF ix Some] have nin: "n \<in> set as" and kn: "n_key (lru_heap l n) = k" by auto
  from nin obtain ys zs where as: "as = ys @ n # zs" by (auto simp: in_set_conv_decomp)
  have dk: "distinct (lru_keys l (ys @ n # zs))" using ix as by (simp add: lru_index_def)
  note ks = keys_split[OF dk kn]
  have da: "distinct (ys @ n # zs)" using li as by (simp add: lru_list_def)
  from g kin ks(3) as have gy: "ys = [] \<longrightarrow> \<not> st" and st': "st' = (st \<and> ys \<noteq> [])"
    by (auto split: if_splits)
  let ?l1 = "lru_remove n l"
  let ?l2 = "?l1\<lparr>lru_nodes := (lru_nodes ?l1)(k := None)\<rparr>"
  note rm = lru_remove_list[OF li[unfolded as] gy]
  have op: "lru_Remove k l = ?l2" using Some by (simp add: lru_Remove_def Let_def)
  have l2: "lru_list ?l2 (ys @ zs) st'"
    using rm(1) unfolding st' by (rule lru_list_cong) auto
  have keys: "lru_keys ?l2 (ys @ zs) = lru_keys l (ys @ zs)"
    using rm(4) by (simp add: lru_keys_def)
  have "lru_index ?l2 (ys @ zs)"
    unfolding lru_index_def keys
    using ix as ks(4) dk rm(2,3,4) da kn by (auto simp: lru_index_def lru_keys_def image_iff)
  then show ?thesis using l2 keys ks(2) as op by auto
qed

lemma lru_Evict_refines:
  assumes li: "lru_list l as st" and ix: "lru_index l as"
    and g: "guard_step PEvict (lru_keys l as) st = Some st'"
  shows "\<exists>as'. lru_list (snd (lru_Evict l)) as' st' \<and> lru_index (snd (lru_Evict l)) as'
           \<and> recency_step PEvict (lru_keys l as) = ([fst (lru_Evict l)], lru_keys (snd (lru_Evict l)) as')"
proof (cases as rule: rev_cases)
  case Nil
  then have "lru_tail l = None" using lru_list_tail[OF li] by simp
  then have "lru_Evict l = ([], l)" by (simp add: lru_Evict_def)
  moreover have "st' = st" using g Nil by (simp add: lru_keys_def)
  ultimately show ?thesis using li ix Nil by (auto simp: lru_keys_def)
next
  case (snoc ys n)
  then have tl: "lru_tail l = Some n" using lru_list_tail[OF li] by simp
  define k where "k = n_key (lru_heap l n)"
  have as: "as = ys @ n # []" using snoc by simp
  have dk: "distinct (lru_keys l (ys @ n # []))" using ix as by (simp add: lru_index_def)
  note ks = keys_split[OF dk k_def[symmetric]]
  have da: "distinct (ys @ n # [])" using li as by (simp add: lru_list_def)
  have len: "(length (lru_keys l as) = 1) = (ys = [])" using as by (simp add: lru_keys_def)
  from g len have gy: "ys = [] \<longrightarrow> \<not> st" and st': "st' = (st \<and> ys \<noteq> [])"
    by (auto split: if_splits)
  let ?l1 = "lru_remove n l"
  let ?l2 = "?l1\<lparr>lru_nodes := (lru_nodes ?l1)(k := None)\<rparr>"
  note rm = lru_remove_list[OF li[unfolded as] gy]
  have op: "lru_Evict l = (k, ?l2)" using tl by (simp add: lru_Evict_def Let_def k_def)
  have l2: "lru_list ?l2 (ys @ []) st'"
    using rm(1) unfolding st' by (rule lru_list_cong) auto
  have keys: "lru_keys ?l2 (ys @ []) = lru_keys l (ys @ [])"
    using rm(4) by (simp add: lru_keys_def)
  have ix2: "lru_index ?l2 (ys @ [])"
    unfolding lru_index_def keys
    using ix as ks(4) dk rm(2,3,4) da k_def by (auto simp: lru_index_def lru_keys_def image_iff)
  have "recency_step PEvict (lru_keys l as) = ([k], lru_keys l ys)"
    using as k_def by (simp add: lru_keys_def)
  then show ?thesis using l2 keys ix2 op by auto
qed

lemma lru_step_refines:
  assumes "lru_list l as st" and "lru_index l as"
    and "guard_step x (lru_keys l as) st = Some st'"
  shows "\<exists>as'. lru_list (snd (lru_step x l)) as' st' \<and> lru_index (snd (lru_step x l)) as'
           \<and> recency_step x (lru_keys l as) = (fst (lru_step x l), lru_keys (snd (lru_step x l)) as')"
proof (cases x)
  case (PGet k)
  then show ?thesis using lru_OnGet_refines[OF assms(1,2), of k st'] assms(3) by simp
next
  case (PPut k)
  then show ?thesis using lru_OnPut_refines[OF assms(1,2), of k st'] assms(3) by simp
next
  case (PRemove k)
  then show ?thesis using lru_Remove_refines[OF assms(1,2), of k st'] assms(3) by simp
next
  case PEvict
  then show ?thesis using lru_Evict_refines[OF assms(1,2), of st'] assms(3)
    by (simp add: split_beta)
qed

lemma lru_run_refines:
  assumes "lru_list l as st" and "lru_index l as" and "lru_clean ops (lru_keys l as) st"
  shows "\<exists>as'. fst (lru_run ops l) = fst (recency_run ops (lru_keys l as))
           \<and> lru_keys (snd (lru_run ops l)) as' = snd (recency_run ops (lru_keys l as))
           \<and> lru_index (snd (lru_run ops l)) as'"
  using assms
proof (induction ops arbitrary: l as st)
  case Nil
  then show ?case by auto
next
  case (Cons x ops)
  from Cons.prems(3) obtain st' where g: "guard_step x (lru_keys l as) st = Some st'"
    and c: "lru_clean ops (snd (recency_step x (lru_keys l as))) st'"
    by (auto split: option.splits)
  from lru_step_refines[OF Cons.prems(1,2) g] obtain as' where
    a: "lru_list (snd (lru_step x l)) as' st'" and b: "lru_index (snd (lru_step x l)) as'"
    and r: "recency_step x (lru_keys l as) = (fst (lru_step x l), lru_keys (snd (lru_step x l)) as')"
    by blast
  from c r have c': "lru_clean ops (lru_keys (snd (lru_step x l)) as') st'" by simp
  from Cons.IH[OF a b c'] r show ?case
    by (auto simp: split_beta)
qed

lemma newLRU_inv: "lru_list newLRU [] False" "lru_index newLRU []" "lru_keys newLRU [] = []"
  by (simp_all add: lru_list_def lru_index_def lru_keys_def newLRU_def)

text \<open>
  Claim C5, as amended. For every sequence of OnGet/OnPut/Remove/Evict calls on a new LRU
  policy in which the head node is never unlinked while it carries a stale \<open>prev\<close>
  pointer (\<open>lru_clean\<close>), every Evict returns the key at the old end of the recency
  order, that is the tracked key whose latest use (its insertion as a new key by OnPut,
  or its latest read by OnGet) is the oldest, and the empty string when no key is
  tracked; the tracked keys are those of the recency order. OnPut of a key that is
  tracked changes nothing, whatever the state.
\<close>

theorem lru_evicts_least_recently_used:
  "(lru_clean ops [] False \<longrightarrow>
      fst (lru_run ops newLRU) = fst (recency_run ops [])
      \<and> dom (lru_nodes (snd (lru_run ops newLRU))) = set (snd (recency_run ops [])))
   \<and> (lru_nodes l k \<noteq> None \<longrightarrow> lru_OnPut k l = l)"
proof -
  have "fst (lru_run ops newLRU) = fst (recency_run ops [])
      \<and> dom (lru_nodes (snd (lru_run ops newLRU))) = set (snd (recency_run ops []))"
    if "lru_clean ops [] False"
  proof -
    from lru_run_refines[OF newLRU_inv(1,2), of ops] that newLRU_inv(3)
    obtain as' where 1: "fst (lru_run ops newLRU) = fst (recency_run ops [])"
      and 2: "lru_keys (snd (lru_run ops newLRU)) as' = snd (recency_run ops [])"
      and 3: "lru_index (snd (lru_run ops newLRU)) as'"
      by auto
    have "dom (lru_nodes (snd (lru_run ops newLRU))) = set (lru_keys (snd (lru_run ops newLRU)) as')"
      using lru_index_tracked[OF 3] by auto
    then show ?thesis using 1 2 by simp
  qed
  moreover have "lru_OnPut k l = l" if "lru_nodes l k \<noteq> None"
    using that by (auto simp: lru_OnPut_def)
  ultimately show ?thesis by blast
qed

theorem lru_evicts_least_recently_used_witness:
  "lru_clean [PPut ''a'', PPut ''b'', PPut ''c'', PGet ''a'', PPut ''d'', PEvict, PEvict,
              PRemove ''c'', PEvict, PEvict, PEvict] [] False
   \<and> fst (lru_run [PPut ''a'', PPut ''b'', PPut ''c'', PGet ''a'', PPut ''d'', PEvict, PEvict,
              PRemove ''c'', PEvict, PEvict, PEvict] newLRU) = [''b'', ''c'', ''a'', ''d'', []]
   \<and> lru_nodes (lru_OnPut ''a'' newLRU) ''a'' \<noteq> None
   \<and> lru_OnPut ''a'' (lru_OnPut ''a'' newLRU) = lru_OnPut ''a'' newLRU"
proof -
  have c: "lru_clean [PPut ''a'', PPut ''b'', PPut ''c'', PGet ''a'', PPut ''d'', PEvict, PEvict,
              PRemove ''c'', PEvict, PEvict, PEvict] [] False"
    by simp
  have r: "fst (recency_run [PPut ''a'', PPut ''b'', PPut ''c'', PGet ''a'', PPut ''d'', PEvict, PEvict,
              PRemove ''c'', PEvict, PEvict, PEvict] []) = [''b'', ''c'', ''a'', ''d'', []]"
    by simp
  have n: "lru_nodes (lru_OnPut ''a'' newLRU) ''a'' \<noteq> None"
    by (simp add: lru_OnPut_def newLRU_def lru_addFront_def Let_def)
  show ?thesis
    using lru_evicts_least_recently_used
      [of "[PPut ''a'', PPut ''b'', PPut ''c'', PGet ''a'', PPut ''d'', PEvict, PEvict,
              PRemove ''c'', PEvict, PEvict, PEvict]" "lru_OnPut ''a'' newLRU" "''a''"]
      c r n
    by simp
qed

text \<open>
  The claim as stated ranks a key that was never read before every key that was read.
  After OnPut a, OnGet a, OnPut b the key b was never read and a was; the code evicts a,
  the key whose latest use is the oldest, since an insertion counts as a use.
\<close>

theorem lru_Evict_counterexample:
  "fst (lru_run [PPut ''a'', PGet ''a'', PPut ''b'', PEvict] newLRU) = [''a'']
   \<and> fst (least_recently_read_run [PPut ''a'', PGet ''a'', PPut ''b'', PEvict] ([], [])) = [''b'']"
  by (simp add: lru_Evict_def lru_OnGet_def lru_OnPut_def newLRU_def lru_moveToFront_def
      lru_addFront_def lru_remove_def Let_def)

text \<open>
  The runs that \<open>lru_clean\<close> leaves out: a second OnGet of the key at the head ties the
  tail node to itself, and Evict then returns the same key again, also when it is no
  longer tracked, while the key at the head is never evicted.
\<close>

lemma lru_Evict_after_repeated_OnGet:
  "fst (lru_run [PPut ''a'', PPut ''b'', PGet ''a'', PGet ''a'', PEvict, PEvict] newLRU) = [''b'', ''b'']
   \<and> lru_nodes (snd (lru_run [PPut ''a'', PPut ''b'', PGet ''a'', PGet ''a'', PEvict, PEvict] newLRU)) ''a'' \<noteq> None
   \<and> \<not> lru_clean [PPut ''a'', PPut ''b'', PGet ''a'', PGet ''a'', PEvict, PEvict] [] False"
  by (simp add: lru_Evict_def lru_OnGet_def lru_OnPut_def newLRU_def lru_moveToFront_def
      lru_addFront_def lru_remove_def Let_def)

section \<open>What TTL returns for a stored key\<close>

lemma sint_time_Sub:
  "sint (time_Sub t u) =
     (if 2 ^ 63 - 1 < t - u then 2 ^ 63 - 1 else if t - u < - (2 ^ 63) then - (2 ^ 63) else t - u)"
proof -
  have r: "- (2 ^ 63) \<le> x \<Longrightarrow> x \<le> 2 ^ 63 - 1 \<Longrightarrow> sint (word_of_int x :: 64 word) = x" for x :: int
    by (simp add: sint_sbintrunc' signed_take_bit_int_eq_self)
  show ?thesis
    unfolding time_Sub_def using r[of "t - u"] r[of "2 ^ 63 - 1"] r[of "- (2 ^ 63)"]
    by (auto simp del: of_int_diff of_int_minus)
qed

lemma time_Sub_sign:
  "(time_Sub t u <s 0) = (t < u)" "(0 <s time_Sub t u) = (u < t)"
  by (auto simp: word_sless_alt sint_time_Sub)

lemma TTL_of_present_key:
  assumes "Select k (shards c) = Inr i" and "cowStore_Get (Store (shards c ! i)) k = Some ent"
  shows "ShardedCache_TTL c w k =
     (if ExpireAt ent = 0 then Inr (- 1, w)
      else if ExpireAt ent < clock w (ticks w) then Inr (- 2, w\<lparr>ticks := Suc (ticks w)\<rparr>)
      else Inr (time_Sub (ExpireAt ent) (clock w (ticks w)), w\<lparr>ticks := Suc (ticks w)\<rparr>))"
    and "clock w (ticks w) < ExpireAt ent \<Longrightarrow> 0 <s time_Sub (ExpireAt ent) (clock w (ticks w))"
  using assms
  by (simp_all add: ShardedCache_TTL_def time_Until_def time_Now_def time_IsZero_def time_Sub_sign)

section \<open>One insert within the capacity of a shard\<close>

text \<open>
  When the shard is within its threshold before an insert and Evict, where it is called,
  returns a key that is not the empty string and is in the store, the shard is within
  its threshold after the insert.
\<close>

lemma cowStore_Put_size:
  "finite (dom (store_data s)) \<Longrightarrow>
   cowStore_Size (cowStore_Put k ent s) \<le> map_len (store_data s) + 1
   \<and> finite (dom (store_data (cowStore_Put k ent s)))"
  by (auto simp: cowStore_Size_def cowStore_Put_def map_len_def Let_def card_insert_if)

lemma cowStore_Delete_size:
  "finite (dom (store_data s)) \<Longrightarrow> k \<in> dom (store_data s) \<Longrightarrow>
   map_len (store_data (cowStore_Delete k s)) = map_len (store_data s) - 1
   \<and> finite (dom (store_data (cowStore_Delete k s)))"
proof -
  assume f: "finite (dom (store_data s))" and k: "k \<in> dom (store_data s)"
  then have "card (dom (store_data s)) > 0" by (auto simp: card_gt_0_iff)
  then show ?thesis using f k
    by (auto simp: cowStore_Delete_def map_len_def Let_def cow_delete_map)
qed

lemma PutWithTTL_within_capacity:
  assumes put: "ShardedCache_PutWithTTL c w k v ttl = Inr (c1, w1)"
    and sel: "Select k (shards c) = Inr i"
    and fin: "finite (dom (store_data (Store (shards c ! i))))"
    and sz: "store_size (Store (shards c ! i)) = map_len (store_data (Store (shards c ! i)))"
    and le: "cowStore_Size (Store (shards c ! i)) \<le> capacity c sdiv int (length (shards c))"
    and ev: "cowStore_Size (Store (shards c ! i)) \<ge> capacity c sdiv int (length (shards c)) \<longrightarrow>
               fst (Policy_Evict (Eviction (shards c ! i)) w) \<noteq> []
               \<and> fst (Policy_Evict (Eviction (shards c ! i)) w) \<in> dom (store_data (Store (shards c ! i)))"
  shows "cowStore_Size (Store (shards c1 ! i)) \<le> capacity c sdiv int (length (shards c))"
proof -
  let ?sh = "shards c ! i"
  let ?t = "capacity c sdiv int (length (shards c))"
  have il: "i < length (shards c)" using sel by (rule Select_bound)
  define ev where "ev = (if cowStore_Size (Store ?sh) \<ge> ?t
                  then (case Policy_Evict (Eviction ?sh) w of
                          (evicted, pol, w') \<Rightarrow>
                            if evicted \<noteq> []
                            then (?sh\<lparr>Eviction := pol, Store := cowStore_Delete evicted (Store ?sh)\<rparr>,
                                  metric_Eviction (engine c), w')
                            else (?sh\<lparr>Eviction := pol\<rparr>, engine c, w'))
                  else (?sh, engine c, w))"
  obtain sh1 e1 wa where evr: "ev = (sh1, e1, wa)" by (cases ev)
  have s1: "finite (dom (store_data (Store sh1))) \<and> map_len (store_data (Store sh1)) + 1 \<le> ?t"
  proof (cases "cowStore_Size (Store ?sh) \<ge> ?t")
    case True
    obtain evicted pol w' where pe: "Policy_Evict (Eviction ?sh) w = (evicted, pol, w')"
      by (cases "Policy_Evict (Eviction ?sh) w")
    with ev True have ne: "evicted \<noteq> []" and ind: "evicted \<in> dom (store_data (Store ?sh))" by auto
    have "sh1 = ?sh\<lparr>Eviction := pol, Store := cowStore_Delete evicted (Store ?sh)\<rparr>"
      using evr True pe ne unfolding ev_def by simp
    then show ?thesis
      using cowStore_Delete_size[OF fin ind] le sz by (simp add: cowStore_Size_def)
  next
    case False
    then have "sh1 = ?sh" using evr unfolding ev_def by simp
    then show ?thesis using False fin sz by (simp add: cowStore_Size_def)
  qed
  from put sel evr obtain ent2 where
    c1: "shards c1 = (shards c)[i := (sh1\<lparr>Store := cowStore_Put k ent2 (Store sh1)\<rparr>)\<lparr>Eviction := Policy_OnPut k (Eviction sh1)\<rparr>]"
    unfolding ShardedCache_PutWithTTL_def
    by (auto simp: Let_def ev_def[symmetric] split: sum.splits prod.splits)
  have "Store (shards c1 ! i) = cowStore_Put k ent2 (Store sh1)" using c1 il by simp
  then show ?thesis using cowStore_Put_size[of "Store sh1" k ent2] s1 by simp
qed

section \<open>The LFU policy evicts a key of least frequency\<close>

lemma lfu_inv_new: "lfu_inv newLFU"
  by (simp add: lfu_inv_def newLFU_def)

lemma lfu_inv_OnPut: "lfu_inv l \<Longrightarrow> lfu_inv (lfu_OnPut k l)"
  unfolding lfu_inv_def lfu_OnPut_def bucket_add_def Let_def
  by (auto split: option.splits if_splits; fastforce)

lemma lfu_inv_Remove: "lfu_inv l \<Longrightarrow> lfu_inv (lfu_Remove k l)"
  unfolding lfu_inv_def lfu_Remove_def bucket_delete_def Let_def
  by (auto split: option.splits if_splits; fastforce)

lemma lfu_Evict_picks:
  assumes "freqMap l (minFreq l) = Some b" and "b \<noteq> []"
  shows "fst (lfu_Evict i l) \<in> set b"
    and "lfu_inv l \<Longrightarrow> snd (lfu_Evict i l) = lfu_Remove (fst (lfu_Evict i l)) l"
proof -
  let ?k = "b ! (i mod length b)"
  have k: "?k \<in> set b" using assms(2) by simp
  show "fst (lfu_Evict i l) \<in> set b" using assms k by (simp add: lfu_Evict_def Let_def)
  assume "lfu_inv l"
  with assms(1) k obtain n where "lfu_nodes l ?k = Some n" "freq n = minFreq l"
    unfolding lfu_inv_def by blast
  then show "snd (lfu_Evict i l) = lfu_Remove (fst (lfu_Evict i l)) l"
    using assms by (simp add: lfu_Evict_def lfu_Remove_def Let_def)
qed

lemma lfu_inv_Evict: "lfu_inv l \<Longrightarrow> lfu_inv (snd (lfu_Evict i l))"
proof (cases "freqMap l (minFreq l)")
  case None
  assume "lfu_inv l"
  then show ?thesis using None by (simp add: lfu_Evict_def)
next
  case (Some b)
  assume inv: "lfu_inv l"
  show ?thesis
  proof (cases "b = []")
    case True
    then show ?thesis using Some inv by (simp add: lfu_Evict_def)
  next
    case False
    show ?thesis using lfu_Evict_picks(2)[OF Some False inv] lfu_inv_Remove[OF inv] by simp
  qed
qed

lemma lfu_inv_OnGet: "lfu_inv l \<Longrightarrow> lfu_inv (lfu_OnGet k l)"
proof (cases "lfu_nodes l k")
  case None
  assume "lfu_inv l"
  then show ?thesis using None by (simp add: lfu_OnGet_def)
next
  case (Some n)
  assume inv: "lfu_inv l"
  from inv Some obtain b where b: "freqMap l (freq n) = Some b" and kb: "k \<in> set b"
    and f1: "1 \<le> freq n" and mf: "minFreq l \<le> freq n"
    unfolding lfu_inv_def by blast
  let ?old = "freq n"
  let ?b' = "removeAll k b"
  define fm1 where "fm1 = (if ?b' = [] then (freqMap l)(?old := None) else (freqMap l)(?old \<mapsto> ?b'))"
  define mf' where "mf' = (if ?b' = [] \<and> minFreq l = ?old then minFreq l + 1 else minFreq l)"
  have op: "lfu_OnGet k l =
      l\<lparr>lfu_nodes := (lfu_nodes l)(k \<mapsto> n\<lparr>freq := ?old + 1\<rparr>), minFreq := mf',
        freqMap := bucket_add fm1 (?old + 1) k\<rparr>"
    using Some b unfolding lfu_OnGet_def fm1_def mf'_def
    by (auto simp: Let_def bucket_delete_def bucket_len_def)
  have others: "\<And>k' n'. k' \<noteq> k \<Longrightarrow> lfu_nodes l k' = Some n' \<Longrightarrow>
      1 \<le> freq n' \<and> mf' \<le> freq n' \<and> (\<exists>b. fm1 (freq n') = Some b \<and> k' \<in> set b)"
  proof -
    fix k' n' assume ne: "k' \<noteq> k" and t: "lfu_nodes l k' = Some n'"
    from inv t obtain b2 where b2: "freqMap l (freq n') = Some b2" and kb2: "k' \<in> set b2"
      and g1: "1 \<le> freq n'" and g2: "minFreq l \<le> freq n'"
      unfolding lfu_inv_def by blast
    show "1 \<le> freq n' \<and> mf' \<le> freq n' \<and> (\<exists>b. fm1 (freq n') = Some b \<and> k' \<in> set b)"
    proof (cases "freq n' = ?old")
      case True
      then have kr: "k' \<in> set ?b'" using b b2 kb2 ne by simp
      then have "?b' \<noteq> []" by (metis empty_iff empty_set)
      then show ?thesis using True g1 g2 kr by (simp add: fm1_def mf'_def)
    next
      case False
      then show ?thesis using g1 g2 b2 kb2 by (auto simp: fm1_def mf'_def)
    qed
  qed
  have bk: "\<And>f c k'. fm1 f = Some c \<Longrightarrow> k' \<in> set c \<Longrightarrow>
      k' \<noteq> k \<and> (\<exists>n'. lfu_nodes l k' = Some n' \<and> freq n' = f)"
  proof -
    fix f c k' assume fc: "fm1 f = Some c" and kc: "k' \<in> set c"
    show "k' \<noteq> k \<and> (\<exists>n'. lfu_nodes l k' = Some n' \<and> freq n' = f)"
    proof (cases "f = ?old")
      case True
      then have "c = ?b'" using fc by (auto simp: fm1_def split: if_splits)
      then have "k' \<noteq> k" "k' \<in> set b" using kc by auto
      then show ?thesis using inv b True unfolding lfu_inv_def by blast
    next
      case False
      then have fo: "freqMap l f = Some c" using fc by (auto simp: fm1_def split: if_splits)
      then obtain n' where n': "lfu_nodes l k' = Some n'" "freq n' = f"
        using inv kc unfolding lfu_inv_def by blast
      then have "k' \<noteq> k" using Some False by auto
      then show ?thesis using n' by blast
    qed
  qed
  show ?thesis
    unfolding op lfu_inv_def
  proof (intro conjI allI impI, goal_cases)
    case (1 k' n')
    then show ?case using others[of k'] f1 by (cases "k' = k") auto
  next
    case (2 k' n')
    then show ?case using others[of k'] mf by (cases "k' = k") (auto simp: mf'_def)
  next
    case (3 k' n')
    then show ?case using others[of k']
      by (cases "k' = k") (auto simp: bucket_add_def split: option.splits)
  next
    case (4 f c k')
    then show ?case using bk[of f _ k'] bk[of "?old + 1" _ k']
      by (auto simp: bucket_add_def split: option.splits if_splits)
  qed
qed

text \<open>When the bucket of minFreq is not empty, Evict returns a tracked key of least frequency.\<close>

lemma lfu_Evict_minimal:
  assumes inv: "lfu_inv l" and b: "freqMap l (minFreq l) = Some b" and ne: "b \<noteq> []"
  shows "\<exists>n. lfu_nodes l (fst (lfu_Evict i l)) = Some n
           \<and> (\<forall>k' n'. lfu_nodes l k' = Some n' \<longrightarrow> freq n \<le> freq n')"
proof -
  from lfu_Evict_picks(1)[OF b ne] inv b obtain n where
    "lfu_nodes l (fst (lfu_Evict i l)) = Some n" "freq n = minFreq l"
    unfolding lfu_inv_def by blast
  then show ?thesis using inv unfolding lfu_inv_def by auto
qed

lemma lfu_reach_inv: "lfu_reach l \<Longrightarrow> lfu_inv l"
  by (induction rule: lfu_reach.induct)
     (simp_all add: lfu_inv_new lfu_inv_OnGet lfu_inv_OnPut lfu_inv_Remove lfu_inv_Evict)

lemma lfu_Evict_minimal_reach:
  assumes "lfu_reach l" and "freqMap l (minFreq l) = Some b" and "b \<noteq> []"
  shows "\<exists>n. lfu_nodes l (fst (lfu_Evict i l)) = Some n
           \<and> (\<forall>k' n'. lfu_nodes l k' = Some n' \<longrightarrow> freq n \<le> freq n')"
  using lfu_Evict_minimal[OF lfu_reach_inv[OF assms(1)] assms(2,3)] .

end
